theory Spec2Isabelle
  imports Main "HOL-Library.Sublist"
begin

section \<open>Python strings\<close>

text \<open>
  A Python \<open>str\<close> is a sequence of code points; it is modelled as a \<open>string\<close>, each
  \<open>char\<close> standing for the code point of the same number (U+0000 to U+00FF), so that
  \<open>len\<close> is \<open>length\<close>. On that range \<open>str.isspace\<close>, \<open>str.lower\<close> and
  \<open>str.isdigit\<close> are the following tables.
\<close>

definition py_isspace :: "char \<Rightarrow> bool" where
  "py_isspace c =
     (let n = (of_char c :: nat)
      in (9 \<le> n \<and> n \<le> 13) \<or> (28 \<le> n \<and> n \<le> 32) \<or> n = 133 \<or> n = 160)"

definition py_lower_char :: "char \<Rightarrow> char" where
  "py_lower_char c =
     (let n = (of_char c :: nat)
      in if (65 \<le> n \<and> n \<le> 90) \<or> (192 \<le> n \<and> n \<le> 222 \<and> n \<noteq> 215)
         then char_of (n + 32) else c)"

definition py_lower :: "string \<Rightarrow> string" where
  "py_lower s = map py_lower_char s"

definition py_isdigit_char :: "char \<Rightarrow> bool" where
  "py_isdigit_char c =
     (let n = (of_char c :: nat)
      in (48 \<le> n \<and> n \<le> 57) \<or> n = 178 \<or> n = 179 \<or> n = 185)"

text \<open>\<open>s.isdigit()\<close>: every character is a digit and there is at least one.\<close>

definition py_isdigit :: "string \<Rightarrow> bool" where
  "py_isdigit s = (s \<noteq> [] \<and> list_all py_isdigit_char s)"

text \<open>\<open>s.strip()\<close>: whitespace removed at both ends.\<close>

definition py_strip :: "string \<Rightarrow> string" where
  "py_strip s = rev (dropWhile py_isspace (rev (dropWhile py_isspace s)))"

text \<open>\<open>w in s\<close> on strings: \<open>w\<close> occurs in \<open>s\<close> as a contiguous run.\<close>

fun starts_with :: "string \<Rightarrow> string \<Rightarrow> bool" where
  "starts_with [] s = True"
| "starts_with (c # w) [] = False"
| "starts_with (c # w) (d # s) = (c = d \<and> starts_with w s)"

fun py_in :: "string \<Rightarrow> string \<Rightarrow> bool" where
  "py_in w [] = (w = [])"
| "py_in w (c # s) = (starts_with w (c # s) \<or> py_in w s)"

text \<open>\<open>sep.join(xs)\<close>.\<close>

fun py_join :: "string \<Rightarrow> string list \<Rightarrow> string" where
  "py_join sep [] = []"
| "py_join sep [x] = x"
| "py_join sep (x # y # xs) = x @ sep @ py_join sep (y # xs)"

section \<open>Validators (app/utils/security.py)\<close>

text \<open>
  \<open>contains_banned_words(text, banned_words)\<close>: the first configured word that, trimmed
  and lower-cased, is not empty and occurs in the lower-cased text; \<open>None\<close> stands for
  the pair \<open>(False, None)\<close>.
\<close>

fun contains_banned_words :: "string \<Rightarrow> string list \<Rightarrow> string option" where
  "contains_banned_words text [] = None"
| "contains_banned_words text (w # ws) =
     (let w' = py_lower (py_strip w)
      in if w' \<noteq> [] \<and> py_in w' (py_lower text) then Some w'
         else contains_banned_words text ws)"

text \<open>
  \<open>re.split(r"[,\n;]+", raw)\<close>: the pieces between the maximal runs of separators. The
  scan carries the piece being read and whether the previous character was a separator.
\<close>

definition is_sep :: "char \<Rightarrow> bool" where
  "is_sep c = (c = CHR '','' \<or> c = CHR 0x0A \<or> c = CHR '';'')"

fun re_split_from :: "string \<Rightarrow> bool \<Rightarrow> string \<Rightarrow> string list" where
  "re_split_from cur in_run [] = [cur]"
| "re_split_from cur in_run (c # cs) =
     (if is_sep c
      then (if in_run then re_split_from [] True cs else cur # re_split_from [] True cs)
      else re_split_from (cur @ [c]) False cs)"

definition re_split :: "string \<Rightarrow> string list" where
  "re_split raw = re_split_from [] False raw"

datatype interests_error =
    TooManyValues
  | BadLength string
  | BannedWord string
  | TotalTooLong

text \<open>The checking loop over the items: the first offending item ends it.\<close>

fun check_interests :: "string list \<Rightarrow> string list \<Rightarrow> interests_error option" where
  "check_interests [] banned = None"
| "check_interests (interest # rest) banned =
     (if \<not> (1 \<le> length interest \<and> length interest \<le> 50) then Some (BadLength interest)
      else if contains_banned_words interest banned \<noteq> None then Some (BannedWord interest)
      else check_interests rest banned)"

text \<open>The deduplication loop, with its \<open>seen\<close> set and its \<open>result\<close> list.\<close>

fun dedup_loop :: "string list \<Rightarrow> string list \<Rightarrow> string list \<Rightarrow> string list" where
  "dedup_loop seen result [] = result"
| "dedup_loop seen result (it # its) =
     (if py_lower it \<notin> set seen
      then dedup_loop (py_lower it # seen) (result @ [it]) its
      else dedup_loop seen result its)"

definition interest_items :: "string \<Rightarrow> string list" where
  "interest_items raw = filter (\<lambda>p. p \<noteq> []) (map py_strip (re_split raw))"

text \<open>
  \<open>normalize_interests(raw, banned_words)\<close>; \<open>Inr xs\<close> is the pair \<open>(xs, None)\<close> and
  \<open>Inl e\<close> the pair \<open>(None, message)\<close>.
\<close>

definition normalize_interests :: "string \<Rightarrow> string list \<Rightarrow> interests_error + string list" where
  "normalize_interests raw banned =
     (if py_strip raw = [] then Inr []
      else let interests = interest_items raw
           in if length interests > 30 then Inl TooManyValues
              else case check_interests interests banned of
                     Some e \<Rightarrow> Inl e
                   | None \<Rightarrow>
                       let result = dedup_loop [] [] interests
                       in if sum_list (map length result) > 300 then Inl TotalTooLong
                          else Inr result)"

text \<open>
  \<open>validate_email(email, regex, allowed_domains)\<close>. The compiled pattern is configuration:
  \<open>regex.match(email)\<close> is a predicate on strings. \<open>None\<close> is the pair \<open>(True, None)\<close>;
  \<open>email.split("@", 1)[1]\<close> raises IndexError when there is no \<open>@\<close>, which the function
  catches and reports as a format error.
\<close>

datatype email_error = BadFormat | DomainNotAllowed string

definition validate_email :: "string \<Rightarrow> (string \<Rightarrow> bool) \<Rightarrow> string list \<Rightarrow> email_error option" where
  "validate_email email regex allowed_domains =
     (if \<not> regex email then Some BadFormat
      else if allowed_domains \<noteq> [] then
        (if CHR ''@'' \<notin> set email then Some BadFormat
         else let domain = py_lower (tl (dropWhile (\<lambda>c. c \<noteq> CHR ''@'') email))
              in if domain \<notin> set (map py_lower allowed_domains)
                 then Some (DomainNotAllowed domain) else None)
      else None)"

section \<open>Data model (app/models.py, app/config.py)\<close>

text \<open>
  \<open>users.status\<close> and \<open>users.stage\<close> are string columns; the constructors are the
  values the handlers write and compare with. Timestamps are points of one UTC time line
  counted in microseconds, so \<open>ensure_aware_utc\<close> is the identity on them and
  \<open>timedelta(seconds=n)\<close> is \<open>n * 1000000\<close>.
\<close>

datatype status = status_new | status_active | status_blocked | status_imported

datatype stage =
    stage_new
  | verifying_email
  | verifying_email_error
  | verifying_code
  | verifying_code_error
  | authorized
  | profile_name
  | profile_photo
  | profile_bio
  | profile_age
  | profile_interests
  | profile_review
  | profile_filled

definition timedelta_seconds :: "int \<Rightarrow> int" where
  "timedelta_seconds n = n * 1000000"

text \<open>
  A row of \<open>users\<close>. \<open>photos_json\<close> holds the file ids and \<open>interests_json\<close> the
  list of the respective JSON objects; \<open>import_payload\<close> is a JSON object, kept as the
  list of its keys and values, of which the handlers read the string under
  \<open>profile_name\<close>.
\<close>

record user =
  user_id :: nat
  telegram_id :: int
  username :: "string option"
  status :: status
  stage :: stage
  email :: "string option"
  email_attempts :: int
  otp_attempts :: int
  name :: "string option"
  photos_json :: "string list option"
  bio :: "string option"
  age :: "int option"
  interests_json :: "string list option"
  origin :: "string option"
  import_payload :: "(string \<times> string) list option"
  last_activity :: int

record otp =
  otp_user_id :: nat
  code :: string
  session_id :: string
  resend_count :: int
  last_sent_at :: int
  created_at :: int
  expires_at :: int
  used_at :: "int option"

datatype attempt_type = type_email | type_otp

text \<open>A row of \<open>auth_attempts\<close>; \<open>ts\<close> is filled in by the database when the row is added.\<close>

record auth_attempt =
  attempt_user_id :: nat
  attempt_type :: attempt_type
  attempt_value :: string
  attempt_ts :: int

datatype block_reason = too_many_addresses | too_many_otp_codes

text \<open>A row of \<open>admin_log\<close>; the payload dictionary of a block request is spread out.\<close>

record admin_log =
  admin_telegram_id :: int
  action :: string
  payload_user_id :: nat
  payload_reason :: block_reason
  payload_type :: attempt_type
  payload_attempts :: "string list"

record settings =
  admin_chat_id :: "int option"
  email_regex :: "string \<Rightarrow> bool"
  allowed_domains :: "string list"
  otp_ttl_seconds :: int
  otp_cooldown_seconds :: int
  resend_max_per_session :: int
  email_max_attempts :: int
  otp_max_attempts :: int
  banned_words :: "string list"

text \<open>
  The store as one event sees it: \<open>account\<close> is the sender's row of \<open>users\<close> (the one
  \<open>_user\<close> returns), \<open>other_users\<close> the remaining rows. \<open>otp_rows\<close> is in insertion
  order and a row is identified by its position; \<open>auth_attempts\<close> has the row added
  last in front; \<open>admin_logs\<close> is in insertion order.
\<close>

record db =
  account :: user
  other_users :: "user list"
  otp_rows :: "otp list"
  auth_attempts :: "auth_attempt list"
  admin_logs :: "admin_log list"

text \<open>
  What one event takes from outside: the two readings of the clock (the one stored in
  \<open>last_activity\<close> and the later one used for the code), the time the database gives
  to a row it stamps itself, the random code and session id, and whether the mail server
  accepts the message (\<open>send_otp_email\<close> raises otherwise).
\<close>

record env =
  clock_activity :: int
  clock_now :: int
  db_now :: int
  fresh_code :: string
  fresh_session :: string
  smtp_ok :: bool

datatype error = SkipHandler | MultipleResultsFound | SMTPError | ValueError

datatype otp_warn = warn_cooldown | warn_resend_limit | warn_resent

text \<open>The messages the handlers answer with.\<close>

datatype reply =
    BlockedNotice
  | EmailTaken
  | EmailBlocked
  | EmailRetry email_error int
  | CodeSent "otp_warn option"
  | CodeFormatPrompt
  | CodeNotFound
  | CodeExpired
  | CodeUsed
  | CodeBlocked
  | CodeWrong int
  | AuthSuccess
  | ResendDone bool "otp_warn option"
  | ResendNotNeeded
  | AskNewEmail
  | NameLengthError
  | NameBanned string
  | AskName
  | AskPhoto
  | BioTooLong
  | BioBanned string
  | AskBio
  | AskAge
  | AgeError
  | AskInterests
  | AskInterestsAgain
  | PhotoSkipped
  | AskNameFirst
  | AskPhotoButton
  | PrefillOffer string
  | FilledPreview
  | ProfileSaved
  | JoinAck
  | InterestsError interests_error
  | ReviewPreview
  | StartEmailPrompt
  | StartCodeWait
  | StartAuthorized
  | StartFilledPreview
  | StartContinueProfile
  | StartFallback

datatype intent =
    ToUser reply
  | ToAdminChat int block_reason attempt_type "string list"
  | Mail "string option" string

section \<open>Registration (app/handlers/registration.py)\<close>

text \<open>
  \<open>_log_attempt\<close>: the new row is added. The loop after it, written to delete all but
  the three newest rows of this user and type, calls the session's \<open>delete\<close> without
  awaiting it; that call only builds a coroutine which never runs, so no row is deleted.
\<close>

definition log_attempt :: "nat \<Rightarrow> attempt_type \<Rightarrow> string \<Rightarrow> int \<Rightarrow> auth_attempt list
    \<Rightarrow> auth_attempt list" where
  "log_attempt uid typ v ts rows =
     \<lparr>attempt_user_id = uid, attempt_type = typ, attempt_value = v, attempt_ts = ts\<rparr> # rows"

text \<open>
  \<open>_last_attempts\<close> with its default \<open>limit=3\<close>: the rows of this user and type in
  descending order of \<open>ts\<close>, the first three of them. Among rows of equal \<open>ts\<close> the
  database's order is not specified; the sort is stable, so the row added later comes first.
\<close>

definition last_attempts :: "nat \<Rightarrow> attempt_type \<Rightarrow> auth_attempt list \<Rightarrow> auth_attempt list" where
  "last_attempts uid typ rows =
     take 3 (sort_key (\<lambda>a. - attempt_ts a)
               (filter (\<lambda>a. attempt_user_id a = uid \<and> attempt_type a = typ) rows))"

text \<open>
  \<open>ORDER BY created_at DESC\<close> followed by \<open>.first()\<close>, over the candidate positions: the
  position of a row with the greatest \<open>created_at\<close>. Among rows of equal \<open>created_at\<close> the
  database's choice is not specified; the earliest inserted is taken.
\<close>

fun newest :: "otp list \<Rightarrow> nat list \<Rightarrow> nat option" where
  "newest rows [] = None"
| "newest rows (i # rest) =
     (case newest rows rest of
        None \<Rightarrow> Some i
      | Some j \<Rightarrow> if created_at (rows ! j) > created_at (rows ! i) then Some j else Some i)"

definition user_rows :: "nat \<Rightarrow> otp list \<Rightarrow> nat list" where
  "user_rows uid rows = filter (\<lambda>i. otp_user_id (rows ! i) = uid) [0..<length rows]"

definition unused_rows :: "nat \<Rightarrow> otp list \<Rightarrow> nat list" where
  "unused_rows uid rows =
     filter (\<lambda>i. otp_user_id (rows ! i) = uid \<and> used_at (rows ! i) = None) [0..<length rows]"

text \<open>The tail of \<open>_send_or_resend_otp\<close>: a new code is stored and mailed.\<close>

definition mint_otp :: "settings \<Rightarrow> env \<Rightarrow> user \<Rightarrow> otp list
    \<Rightarrow> error + (otp list \<times> (bool \<times> otp_warn option) \<times> intent list)" where
  "mint_otp cfg ev u rows =
     (let now = clock_now ev;
          row = \<lparr>otp_user_id = user_id u, code = fresh_code ev, session_id = fresh_session ev,
                 resend_count = 0, last_sent_at = now, created_at = now,
                 expires_at = now + timedelta_seconds (otp_ttl_seconds cfg), used_at = None\<rparr>
      in if \<not> smtp_ok ev then Inl SMTPError
         else Inr (rows @ [row], (True, None), [Mail (email u) (fresh_code ev)]))"

text \<open>
  \<open>_send_or_resend_otp\<close>. \<open>expires_at\<close> and \<open>last_sent_at\<close> are NOT NULL columns, so
  the tests \<open>ex_expires_at and \<dots>\<close> and \<open>ex_last_sent_at and \<dots>\<close> reduce to the comparisons.
\<close>

definition send_or_resend_otp :: "settings \<Rightarrow> env \<Rightarrow> user \<Rightarrow> otp list
    \<Rightarrow> error + (otp list \<times> (bool \<times> otp_warn option) \<times> intent list)" where
  "send_or_resend_otp cfg ev u rows =
     (let now = clock_now ev
      in case newest rows (unused_rows (user_id u) rows) of
           None \<Rightarrow> mint_otp cfg ev u rows
         | Some i \<Rightarrow>
             let existing = rows ! i
             in if expires_at existing > now then
                  (if last_sent_at existing + timedelta_seconds (otp_cooldown_seconds cfg) > now
                   then Inr (rows, (True, Some warn_cooldown), [])
                   else if resend_count existing \<ge> resend_max_per_session cfg
                   then Inr (rows, (True, Some warn_resend_limit), [])
                   else if \<not> smtp_ok ev then Inl SMTPError
                   else Inr (rows[i := existing\<lparr>resend_count := resend_count existing + 1,
                                                 last_sent_at := now\<rparr>],
                             (True, Some warn_resent),
                             [Mail (email u) (code existing)]))
                else mint_otp cfg ev u rows)"

text \<open>
  \<open>_notify_admin_on_block\<close>: returns at once when no admin chat is configured;
  otherwise one \<open>admin_log\<close> row is added and the admin chat is told (a failure of that
  delivery is swallowed).
\<close>

definition notify_admin_on_block :: "settings \<Rightarrow> user \<Rightarrow> block_reason \<Rightarrow> attempt_type
    \<Rightarrow> auth_attempt list \<Rightarrow> admin_log list \<Rightarrow> admin_log list \<times> intent list" where
  "notify_admin_on_block cfg u reason typ ledger logs =
     (case admin_chat_id cfg of
        None \<Rightarrow> (logs, [])
      | Some chat \<Rightarrow>
          if chat = 0 then (logs, [])
          else let vals = map attempt_value (last_attempts (user_id u) typ ledger)
               in (logs @ [\<lparr>admin_telegram_id = 0, action = ''auth_block_request'',
                             payload_user_id = user_id u, payload_reason = reason,
                             payload_type = typ, payload_attempts = vals\<rparr>],
                   [ToAdminChat chat reason typ vals]))"

text \<open>
  The e-mail branch of \<open>on_email_or_code\<close>; \<open>u\<close> is the account with its activity
  stamped. \<open>scalar_one_or_none\<close> raises when the query finds more than one row.
\<close>

definition email_step :: "settings \<Rightarrow> env \<Rightarrow> string \<Rightarrow> user \<Rightarrow> db \<Rightarrow> error + (db \<times> intent list)" where
  "email_step cfg ev text u s =
     (let ledger = log_attempt (user_id u) type_email text (db_now ev) (auth_attempts s);
          holders = filter (\<lambda>w. email w = Some text \<and> telegram_id w \<noteq> telegram_id u)
                      (other_users s)
      in if length holders > 1 then Inl MultipleResultsFound
         else if holders \<noteq> []
         then Inr (s\<lparr>account := u, auth_attempts := ledger\<rparr>, [ToUser EmailTaken])
         else
           (case validate_email text (email_regex cfg) (allowed_domains cfg) of
              Some err \<Rightarrow>
                let u1 = u\<lparr>email_attempts := email_attempts u + 1, stage := verifying_email\<rparr>
                in if email_attempts u1 > email_max_attempts cfg then
                     (let u2 = u1\<lparr>status := status_blocked, stage := verifying_email_error\<rparr>;
                          (logs, notes) = notify_admin_on_block cfg u2 too_many_addresses
                                            type_email ledger (admin_logs s)
                      in Inr (s\<lparr>account := u2, auth_attempts := ledger, admin_logs := logs\<rparr>,
                              notes @ [ToUser EmailBlocked]))
                   else Inr (s\<lparr>account := u1, auth_attempts := ledger\<rparr>,
                             [ToUser (EmailRetry err
                                (email_max_attempts cfg - email_attempts u1 + 1))])
            | None \<Rightarrow>
                let u1 = u\<lparr>email := Some text, email_attempts := 0, stage := verifying_code\<rparr>
                in (case send_or_resend_otp cfg ev u1 (otp_rows s) of
                      Inl e \<Rightarrow> Inl e
                    | Inr (rows, (ok, warn), mails) \<Rightarrow>
                        Inr (s\<lparr>account := u1, otp_rows := rows, auth_attempts := ledger\<rparr>,
                             mails @ [ToUser (CodeSent warn)]))))"

text \<open>The code branch of \<open>on_email_or_code\<close>.\<close>

definition otp_step :: "settings \<Rightarrow> env \<Rightarrow> string \<Rightarrow> user \<Rightarrow> db \<Rightarrow> error + (db \<times> intent list)" where
  "otp_step cfg ev text u s =
     (if \<not> py_isdigit text \<or> \<not> (4 \<le> length text \<and> length text \<le> 8)
      then Inr (s\<lparr>account := u\<rparr>, [ToUser CodeFormatPrompt])
      else
        let ledger = log_attempt (user_id u) type_otp text (db_now ev) (auth_attempts s);
            now = clock_now ev
        in case newest (otp_rows s) (user_rows (user_id u) (otp_rows s)) of
             None \<Rightarrow> Inr (s\<lparr>account := u, auth_attempts := ledger\<rparr>, [ToUser CodeNotFound])
           | Some i \<Rightarrow>
               let otp_row = otp_rows s ! i
               in if expires_at otp_row \<le> now
                  then Inr (s\<lparr>account := u, auth_attempts := ledger\<rparr>, [ToUser CodeExpired])
                  else if used_at otp_row \<noteq> None
                  then Inr (s\<lparr>account := u, auth_attempts := ledger\<rparr>, [ToUser CodeUsed])
                  else if text \<noteq> code otp_row then
                    (let u1 = u\<lparr>otp_attempts := otp_attempts u + 1, stage := verifying_code\<rparr>
                     in if otp_attempts u1 > otp_max_attempts cfg then
                          (let u2 = u1\<lparr>status := status_blocked, stage := verifying_code_error\<rparr>;
                               (logs, notes) = notify_admin_on_block cfg u2 too_many_otp_codes
                                                 type_otp ledger (admin_logs s)
                           in Inr (s\<lparr>account := u2, auth_attempts := ledger, admin_logs := logs\<rparr>,
                                   notes @ [ToUser CodeBlocked]))
                        else Inr (s\<lparr>account := u1, auth_attempts := ledger\<rparr>,
                                  [ToUser (CodeWrong
                                     (otp_max_attempts cfg - otp_attempts u1 + 1))]))
                  else Inr (s\<lparr>account := u\<lparr>status := status_active, stage := authorized,
                                              email_attempts := 0, otp_attempts := 0\<rparr>,
                              otp_rows := (otp_rows s)[i := otp_row\<lparr>used_at := Some now\<rparr>],
                              auth_attempts := ledger\<rparr>,
                            [ToUser AuthSuccess]))"

text \<open>
  \<open>on_email_or_code\<close>, for a message text \<open>raw\<close>. \<open>SkipHandler\<close> leaves the store as it
  is. The bookkeeping of the last keyboard message belongs to the transport and is left out.
\<close>

definition on_email_or_code :: "settings \<Rightarrow> env \<Rightarrow> string \<Rightarrow> db \<Rightarrow> error + (db \<times> intent list)" where
  "on_email_or_code cfg ev raw s =
     (if stage (account s) \<notin> {stage_new, verifying_email, verifying_email_error,
                               verifying_code, verifying_code_error}
      then Inl SkipHandler
      else
        let u = (account s)\<lparr>last_activity := clock_activity ev\<rparr>;
            text = py_strip raw
        in if status u = status_blocked then Inr (s\<lparr>account := u\<rparr>, [ToUser BlockedNotice])
           else if stage u \<in> {stage_new, verifying_email, verifying_email_error}
           then email_step cfg ev text u s
           else if stage u \<in> {verifying_code, verifying_code_error}
           then otp_step cfg ev text u s
           else Inr (s\<lparr>account := u\<rparr>, []))"

text \<open>\<open>cb_otp_resend\<close> and \<open>cb_change_email\<close>, the two buttons under the code prompt.\<close>

definition cb_otp_resend :: "settings \<Rightarrow> env \<Rightarrow> db \<Rightarrow> error + (db \<times> intent list)" where
  "cb_otp_resend cfg ev s =
     (let u = (account s)\<lparr>last_activity := clock_activity ev\<rparr>
      in if status u = status_blocked then Inr (s\<lparr>account := u\<rparr>, [ToUser BlockedNotice])
         else if stage u \<notin> {verifying_code, verifying_code_error}
         then Inr (s\<lparr>account := u\<rparr>, [ToUser ResendNotNeeded])
         else case send_or_resend_otp cfg ev u (otp_rows s) of
                Inl e \<Rightarrow> Inl e
              | Inr (rows, (ok, warn), mails) \<Rightarrow>
                  Inr (s\<lparr>account := u, otp_rows := rows\<rparr>, mails @ [ToUser (ResendDone ok warn)]))"

definition cb_change_email :: "env \<Rightarrow> db \<Rightarrow> error + (db \<times> intent list)" where
  "cb_change_email ev s =
     (let u = (account s)\<lparr>last_activity := clock_activity ev\<rparr>
      in if status u = status_blocked then Inr (s\<lparr>account := u\<rparr>, [ToUser BlockedNotice])
         else Inr (s\<lparr>account := u\<lparr>stage := verifying_email\<rparr>\<rparr>, [ToUser AskNewEmail]))"

section \<open>Profile wizard (app/handlers/profile.py)\<close>

text \<open>
  \<open>int(text)\<close> on a string that passed \<open>isdigit\<close>: the decimal value when every
  character is one of 0 to 9, ValueError (\<open>None\<close>) for the superscript digits.
\<close>

fun py_int_digits :: "int \<Rightarrow> string \<Rightarrow> int option" where
  "py_int_digits acc [] = Some acc"
| "py_int_digits acc (c # cs) =
     (let n = (of_char c :: nat)
      in if 48 \<le> n \<and> n \<le> 57 then py_int_digits (acc * 10 + (int n - 48)) cs else None)"

definition py_int :: "string \<Rightarrow> int option" where
  "py_int s = (if s = [] then None else py_int_digits 0 s)"

text \<open>
  \<open>on_profile_text\<close>, the text handler of the stages that collect a text field. After
  the last \<open>if\<close> the function ends without a commit.
\<close>

definition on_profile_text :: "settings \<Rightarrow> env \<Rightarrow> string \<Rightarrow> db \<Rightarrow> error + (db \<times> intent list)" where
  "on_profile_text cfg ev raw s =
     (if stage (account s) \<notin> {profile_name, profile_bio, profile_age, profile_interests}
      then Inl SkipHandler
      else
        let u = (account s)\<lparr>last_activity := clock_activity ev\<rparr>;
            text = py_strip raw
        in if status u = status_blocked then Inr (s\<lparr>account := u\<rparr>, [ToUser BlockedNotice])
           else if stage u = profile_name then
             (if \<not> (2 \<le> length text \<and> length text \<le> 100)
              then Inr (s\<lparr>account := u\<rparr>, [ToUser NameLengthError])
              else case contains_banned_words text (banned_words cfg) of
                     Some word \<Rightarrow> Inr (s\<lparr>account := u\<rparr>, [ToUser (NameBanned word)])
                   | None \<Rightarrow> Inr (s\<lparr>account := u\<lparr>name := Some text, stage := profile_photo\<rparr>\<rparr>,
                                   [ToUser AskPhoto]))
           else if stage u = profile_bio then
             (if length text > 500
              then Inr (s\<lparr>account := u\<rparr>, [ToUser BioTooLong])
              else case contains_banned_words text (banned_words cfg) of
                     Some word \<Rightarrow> Inr (s\<lparr>account := u\<rparr>, [ToUser (BioBanned word)])
                   | None \<Rightarrow> Inr (s\<lparr>account := u\<lparr>bio := Some text, stage := profile_age\<rparr>\<rparr>,
                                   [ToUser AskAge]))
           else if stage u = profile_age then
             (if \<not> py_isdigit text
              then Inr (s\<lparr>account := u\<rparr>, [ToUser AgeError])
              else case py_int text of
                     None \<Rightarrow> Inl ValueError
                   | Some a \<Rightarrow>
                       if \<not> (18 \<le> a \<and> a \<le> 50)
                       then Inr (s\<lparr>account := u\<rparr>, [ToUser AgeError])
                       else Inr (s\<lparr>account := u\<lparr>age := Some a, stage := profile_interests\<rparr>\<rparr>,
                                 [ToUser AskInterests]))
           else if stage u = profile_interests then
             (case normalize_interests text (banned_words cfg) of
                Inl err \<Rightarrow> Inr (s\<lparr>account := u\<rparr>, [ToUser (InterestsError err)])
              | Inr interests \<Rightarrow>
                  Inr (s\<lparr>account := u\<lparr>interests_json := Some interests,
                                          stage := profile_review\<rparr>\<rparr>,
                       [ToUser ReviewPreview]))
           else Inr (s, []))"

text \<open>\<open>cb_photo_skip\<close>, the button that ends the photo step.\<close>

definition cb_photo_skip :: "env \<Rightarrow> db \<Rightarrow> error + (db \<times> intent list)" where
  "cb_photo_skip ev s =
     (let u = (account s)\<lparr>last_activity := clock_activity ev\<rparr>
      in if stage u \<noteq> profile_photo then Inr (s\<lparr>account := u\<rparr>, [])
         else Inr (s\<lparr>account := u\<lparr>stage := profile_bio\<rparr>\<rparr>, [ToUser PhotoSkipped]))"

text \<open>
  \<open>cb_prof_edit_field\<close>, for the callback data \<open>prof:edit:<field>\<close>; it neither stamps
  the activity nor looks at the status.
\<close>

definition cb_prof_edit_field :: "string \<Rightarrow> db \<Rightarrow> error + (db \<times> intent list)" where
  "cb_prof_edit_field field s =
     (let u = account s
      in if field = ''name''
         then Inr (s\<lparr>account := u\<lparr>stage := profile_name\<rparr>\<rparr>, [ToUser AskName])
         else if field = ''photo''
         then Inr (s\<lparr>account := u\<lparr>stage := profile_photo\<rparr>\<rparr>, [ToUser AskPhoto])
         else if field = ''bio''
         then Inr (s\<lparr>account := u\<lparr>stage := profile_bio\<rparr>\<rparr>, [ToUser AskBio])
         else if field = ''age''
         then Inr (s\<lparr>account := u\<lparr>stage := profile_age\<rparr>\<rparr>, [ToUser AskAge])
         else if field = ''interests''
         then Inr (s\<lparr>account := u\<lparr>stage := profile_interests\<rparr>\<rparr>, [ToUser AskInterestsAgain])
         else Inr (s, []))"

text \<open>
  \<open>cb_prof_edit_review\<close>, \<open>cb_prof_save\<close> and \<open>cb_prof_join\<close>: the buttons that
  open the review screen, save the profile and ask to take part. The first two set the
  stage whatever the status is; the third does not touch the store.
\<close>

definition cb_prof_edit_review :: "db \<Rightarrow> error + (db \<times> intent list)" where
  "cb_prof_edit_review s =
     Inr (s\<lparr>account := (account s)\<lparr>stage := profile_review\<rparr>\<rparr>, [ToUser ReviewPreview])"

definition cb_prof_save :: "db \<Rightarrow> error + (db \<times> intent list)" where
  "cb_prof_save s =
     Inr (s\<lparr>account := (account s)\<lparr>stage := profile_filled\<rparr>\<rparr>, [ToUser ProfileSaved])"

definition cb_prof_join :: "db \<Rightarrow> error + (db \<times> intent list)" where
  "cb_prof_join s = Inr (s, [ToUser JoinAck])"

text \<open>
  \<open>cb_prof_start\<close>, the button that opens the profile. Outside the profile stages it
  starts at the name, offering an imported name that passes the name rules; inside them
  it asks again for what the stage collects.
\<close>

definition cb_prof_start :: "settings \<Rightarrow> env \<Rightarrow> db \<Rightarrow> error + (db \<times> intent list)" where
  "cb_prof_start cfg ev s =
     (let u = (account s)\<lparr>last_activity := clock_activity ev\<rparr>
      in if status u = status_blocked then Inr (s\<lparr>account := u\<rparr>, [ToUser BlockedNotice])
         else if stage u \<notin> {profile_name, profile_photo, profile_bio, profile_age,
                              profile_interests, profile_review, profile_filled}
         then
           (let u1 = u\<lparr>stage := profile_name\<rparr>;
                prefilled =
                  (if origin u1 = Some ''import''
                   then (case import_payload u1 of
                           None \<Rightarrow> None
                         | Some kv \<Rightarrow> map_of kv ''profile_name'')
                   else None)
            in case prefilled of
                 None \<Rightarrow> Inr (s\<lparr>account := u1\<rparr>, [ToUser AskNameFirst])
               | Some p \<Rightarrow>
                   if p \<noteq> [] \<and> 2 \<le> length p \<and> length p \<le> 100 \<and>
                      contains_banned_words p (banned_words cfg) = None
                   then Inr (s\<lparr>account := u1\<rparr>, [ToUser (PrefillOffer p)])
                   else Inr (s\<lparr>account := u1\<rparr>, [ToUser AskNameFirst]))
         else if stage u = profile_name then Inr (s\<lparr>account := u\<rparr>, [ToUser AskNameFirst])
         else if stage u = profile_photo then Inr (s\<lparr>account := u\<rparr>, [ToUser AskPhotoButton])
         else if stage u = profile_bio then Inr (s\<lparr>account := u\<rparr>, [ToUser AskBio])
         else if stage u = profile_age then Inr (s\<lparr>account := u\<rparr>, [ToUser AskAge])
         else if stage u = profile_interests then Inr (s\<lparr>account := u\<rparr>, [ToUser AskInterests])
         else if stage u = profile_review then Inr (s\<lparr>account := u\<rparr>, [ToUser ReviewPreview])
         else if stage u = profile_filled then Inr (s\<lparr>account := u\<rparr>, [ToUser FilledPreview])
         else Inr (s\<lparr>account := u\<rparr>, []))"

text \<open>
  \<open>cb_prefilled_keep\<close> and \<open>cb_prefilled_new\<close>, the two answers to the offer of the
  imported name. Neither stamps the activity nor looks at the status.
\<close>

definition cb_prefilled_keep :: "db \<Rightarrow> error + (db \<times> intent list)" where
  "cb_prefilled_keep s =
     (let u = (account s)\<lparr>stage := profile_photo\<rparr>;
          kept = (case import_payload u of
                    None \<Rightarrow> None
                  | Some kv \<Rightarrow> map_of kv ''profile_name'')
      in case kept of
           None \<Rightarrow> Inr (s\<lparr>account := u\<rparr>, [ToUser AskPhotoButton])
         | Some p \<Rightarrow>
             if p \<noteq> [] then Inr (s\<lparr>account := u\<lparr>name := Some p\<rparr>\<rparr>, [ToUser AskPhotoButton])
             else Inr (s\<lparr>account := u\<rparr>, [ToUser AskPhotoButton]))"

definition cb_prefilled_new :: "db \<Rightarrow> error + (db \<times> intent list)" where
  "cb_prefilled_new s =
     Inr (s\<lparr>account := (account s)\<lparr>stage := profile_name\<rparr>\<rparr>, [ToUser AskName])"

section \<open>The /start command and the routing of text (app/handlers/start.py, app/bot.py)\<close>

text \<open>
  \<open>cmd_start\<close>; \<open>uname\<close> is the sender's current handle, which \<open>_get_or_create_user\<close>
  copies into the row when it is set and differs.
\<close>

definition cmd_start :: "string option \<Rightarrow> env \<Rightarrow> db \<Rightarrow> error + (db \<times> intent list)" where
  "cmd_start uname ev s =
     (let u0 = (if uname \<noteq> None \<and> uname \<noteq> Some [] \<and> username (account s) \<noteq> uname
                then (account s)\<lparr>username := uname\<rparr> else account s);
          u = u0\<lparr>last_activity := clock_activity ev\<rparr>
      in if status u = status_blocked then Inr (s\<lparr>account := u\<rparr>, [ToUser BlockedNotice])
         else if stage u \<in> {stage_new, verifying_email, verifying_email_error}
         then Inr (s\<lparr>account := u\<lparr>stage := verifying_email\<rparr>\<rparr>, [ToUser StartEmailPrompt])
         else if stage u \<in> {verifying_code, verifying_code_error}
         then Inr (s\<lparr>account := u\<rparr>, [ToUser StartCodeWait])
         else if stage u = authorized
         then Inr (s\<lparr>account := u\<rparr>, [ToUser StartAuthorized])
         else if stage u = profile_filled
         then Inr (s\<lparr>account := u\<rparr>, [ToUser StartFilledPreview])
         else if stage u \<in> {profile_name, profile_photo, profile_bio, profile_age,
                              profile_interests, profile_review}
         then Inr (s\<lparr>account := u\<rparr>, [ToUser StartContinueProfile])
         else Inr (s\<lparr>account := u\<rparr>, [ToUser StartFallback]))"

text \<open>
  A text message that is not a command goes to the profile router first and, when that
  handler skips, to the registration router; when both skip, no handler takes it.
\<close>

definition dispatch_text :: "settings \<Rightarrow> env \<Rightarrow> string \<Rightarrow> db \<Rightarrow> error + (db \<times> intent list)" where
  "dispatch_text cfg ev raw s =
     (case on_profile_text cfg ev raw s of
        Inl SkipHandler \<Rightarrow>
          (case on_email_or_code cfg ev raw s of
             Inl SkipHandler \<Rightarrow> Inr (s, [])
           | Inl e \<Rightarrow> Inl e
           | Inr r \<Rightarrow> Inr r)
      | Inl e \<Rightarrow> Inl e
      | Inr r \<Rightarrow> Inr r)"

section \<open>Notions of the specification\<close>

text \<open>
  Splitting on comma, semicolon and newline as the specification words it: a cut at every
  separator character. It is compared below with the scan of \<open>re.split\<close>, which cuts at
  runs of separators.
\<close>

fun split_on_separators :: "string \<Rightarrow> string list" where
  "split_on_separators [] = [[]]"
| "split_on_separators (c # cs) =
     (if is_sep c then [] # split_on_separators cs
      else (c # hd (split_on_separators cs)) # tl (split_on_separators cs))"

text \<open>
  An acceptable item as the specification words it: 1 to 50 characters, and no configured
  word (trimmed, not empty) occurs in it when both are lower-cased.
\<close>

definition item_ok :: "string list \<Rightarrow> string \<Rightarrow> bool" where
  "item_ok banned x \<longleftrightarrow>
     1 \<le> length x \<and> length x \<le> 50 \<and>
     \<not> (\<exists>w\<in>set banned. py_lower (py_strip w) \<noteq> [] \<and>
            (\<exists>a b. py_lower x = a @ py_lower (py_strip w) @ b))"

text \<open>An item as \<open>normalize_interests\<close> returns it: not empty, trimmed, free of separators.\<close>

definition tidy :: "string \<Rightarrow> bool" where
  "tidy x \<longleftrightarrow> x \<noteq> [] \<and> py_strip x = x \<and> (\<forall>c\<in>set x. \<not> is_sep c)"

text \<open>The uniqueness constraint on \<open>users.email\<close>, over the rows that have an e-mail.\<close>

definition email_unique :: "user list \<Rightarrow> bool" where
  "email_unique rows = distinct (List.map_filter email rows)"

text \<open>
  Escalation as the specification words it: blocking writes one block request to
  \<open>admin_log\<close>, carrying the category, its reason and the newest ledger values (at most
  three) of the account in that category. The code does so when an admin chat is configured.
\<close>

definition admin_chat_configured :: "settings \<Rightarrow> bool" where
  "admin_chat_configured cfg \<longleftrightarrow> admin_chat_id cfg \<noteq> None \<and> admin_chat_id cfg \<noteq> Some 0"

definition block_request :: "nat \<Rightarrow> block_reason \<Rightarrow> attempt_type \<Rightarrow> string list \<Rightarrow> admin_log" where
  "block_request uid reason typ vals =
     \<lparr>admin_telegram_id = 0, action = ''auth_block_request'', payload_user_id = uid,
      payload_reason = reason, payload_type = typ, payload_attempts = vals\<rparr>"

definition locked_out :: "settings \<Rightarrow> attempt_type \<Rightarrow> db \<Rightarrow> db \<Rightarrow> bool" where
  "locked_out cfg typ s s' \<longleftrightarrow>
     status (account s') = status_blocked \<and>
     stage (account s') =
       (case typ of type_email \<Rightarrow> verifying_email_error | type_otp \<Rightarrow> verifying_code_error) \<and>
     length (last_attempts (user_id (account s)) typ (auth_attempts s')) \<le> 3 \<and>
     admin_logs s' =
       (if admin_chat_configured cfg
        then admin_logs s @
             [block_request (user_id (account s))
                (case typ of type_email \<Rightarrow> too_many_addresses | type_otp \<Rightarrow> too_many_otp_codes)
                typ (map attempt_value (last_attempts (user_id (account s)) typ (auth_attempts s')))]
        else admin_logs s)"

text \<open>The collection stage of each field that the review screen offers to edit.\<close>

definition field_stage :: "string \<Rightarrow> stage option" where
  "field_stage field =
     (if field = ''name'' then Some profile_name
      else if field = ''photo'' then Some profile_photo
      else if field = ''bio'' then Some profile_bio
      else if field = ''age'' then Some profile_age
      else if field = ''interests'' then Some profile_interests
      else None)"

section \<open>Events and runs\<close>

text \<open>
  The events of one conversation that the handlers above take: texts, the /start command
  and the buttons of registration and of the profile. The text handlers are registered for
  texts that are not empty and do not start with a slash; any other text reaches none of
  them. The button \<open>prof:edit:review\<close> has its own handler, registered ahead of the one
  for \<open>prof:edit:<field>\<close>. An exception ends the handler before its commit, so the store
  stays as it was and nothing is answered. Photo messages, the button that takes the
  photos of the sender's profile, and the operator's command and decisions (admin.py) are
  not among the events.
\<close>

datatype event =
    TextMessage string
  | StartCommand "string option"
  | ResendCode
  | ChangeEmail
  | StartProfile
  | KeepPrefilled
  | NewPrefilled
  | SkipPhoto
  | SaveProfile
  | EditField string
  | JoinMatching

definition handle_event :: "settings \<Rightarrow> env \<Rightarrow> event \<Rightarrow> db \<Rightarrow> db \<times> intent list" where
  "handle_event cfg ev e s =
     (case (case e of
              TextMessage raw \<Rightarrow>
                if raw = [] \<or> starts_with ''/'' raw then Inr (s, [])
                else dispatch_text cfg ev raw s
            | StartCommand uname \<Rightarrow> cmd_start uname ev s
            | ResendCode \<Rightarrow> cb_otp_resend cfg ev s
            | ChangeEmail \<Rightarrow> cb_change_email ev s
            | StartProfile \<Rightarrow> cb_prof_start cfg ev s
            | KeepPrefilled \<Rightarrow> cb_prefilled_keep s
            | NewPrefilled \<Rightarrow> cb_prefilled_new s
            | SkipPhoto \<Rightarrow> cb_photo_skip ev s
            | SaveProfile \<Rightarrow> cb_prof_save s
            | EditField field \<Rightarrow>
                if field = ''review'' then cb_prof_edit_review s
                else cb_prof_edit_field field s
            | JoinMatching \<Rightarrow> cb_prof_join s) of
        Inl err \<Rightarrow> (s, [])
      | Inr r \<Rightarrow> r)"

fun run :: "settings \<Rightarrow> (env \<times> event) list \<Rightarrow> db \<Rightarrow> db" where
  "run cfg [] s = s"
| "run cfg ((ev, e) # rest) s = run cfg rest (fst (handle_event cfg ev e s))"

text \<open>
  The text \<open>raw\<close>, arriving in store \<open>s\<close>, is verified against the code row at position
  \<open>i\<close> and leaves store \<open>s'\<close>: the row is the one the handler looks up, and the handler
  answers with the success message.
\<close>

definition verified :: "settings \<Rightarrow> env \<Rightarrow> string \<Rightarrow> db \<Rightarrow> nat \<Rightarrow> db \<Rightarrow> bool" where
  "verified cfg ev raw s i s' \<longleftrightarrow>
     newest (otp_rows s) (user_rows (user_id (account s)) (otp_rows s)) = Some i \<and>
     (\<exists>out. on_email_or_code cfg ev raw s = Inr (s', out) \<and> ToUser AuthSuccess \<in> set out)"

section \<open>A sample configuration and store\<close>

text \<open>
  The settings of the scenarios: one allowed domain, three attempts, 120 seconds of
  lifetime and cooldown; the pattern accepts the strings that contain an \<open>@\<close>.
\<close>

definition sample_settings :: settings where
  "sample_settings =
     \<lparr>admin_chat_id = None, email_regex = (\<lambda>e. CHR ''@'' \<in> set e),
      allowed_domains = [''corp.com''], otp_ttl_seconds = 120, otp_cooldown_seconds = 120,
      resend_max_per_session = 3, email_max_attempts = 3, otp_max_attempts = 3,
      banned_words = [''rust'']\<rparr>"

definition sample_env :: env where
  "sample_env =
     \<lparr>clock_activity = 50000000, clock_now = 50000001, db_now = 50000000,
      fresh_code = ''654321'',
      fresh_session = ''0a1b2c3d'', smtp_ok = True\<rparr>"

text \<open>An account that waits for its code and has used up its three attempts.\<close>

definition sample_account :: user where
  "sample_account =
     \<lparr>user_id = 1, telegram_id = 100, username = None, status = status_new,
      stage = verifying_code, email = Some ''a@corp.com'', email_attempts = 0,
      otp_attempts = 3, name = None, photos_json = None, bio = None, age = None,
      interests_json = None, origin = Some ''self'', import_payload = None,
      last_activity = 0\<rparr>"

definition other_account :: user where
  "other_account =
     \<lparr>user_id = 2, telegram_id = 200, username = None, status = status_active,
      stage = authorized, email = Some ''b@corp.com'', email_attempts = 0,
      otp_attempts = 0, name = None, photos_json = None, bio = None, age = None,
      interests_json = None, origin = Some ''self'', import_payload = None,
      last_activity = 0\<rparr>"

definition sample_otp :: otp where
  "sample_otp =
     \<lparr>otp_user_id = 1, code = ''123456'', session_id = ''9f8e7d6c'', resend_count = 0,
      last_sent_at = 0, created_at = 0, expires_at = 120000000, used_at = None\<rparr>"

definition sample_db :: db where
  "sample_db =
     \<lparr>account = sample_account, other_users = [other_account], otp_rows = [sample_otp],
      auth_attempts = [], admin_logs = []\<rparr>"

section \<open>Strings and lists: auxiliary facts\<close>

lemma split_on_separators_nonempty: "split_on_separators s \<noteq> []"
  by (induction s) auto

lemma re_split_from_split_on_separators:
  "(in_run \<longrightarrow> cur = []) \<Longrightarrow>
   filter (\<lambda>p. p \<noteq> []) (re_split_from cur in_run s) =
   filter (\<lambda>p. p \<noteq> []) ((cur @ hd (split_on_separators s)) # tl (split_on_separators s))"
proof (induction s arbitrary: cur in_run)
  case Nil
  then show ?case by simp
next
  case (Cons c cs)
  have ne: "hd (split_on_separators cs) # tl (split_on_separators cs) = split_on_separators cs"
    using split_on_separators_nonempty by simp
  show ?case
  proof (cases "is_sep c")
    case True
    have "filter (\<lambda>p. p \<noteq> []) (re_split_from [] True cs) = filter (\<lambda>p. p \<noteq> []) (split_on_separators cs)"
      using Cons.IH [of True "[]"] ne by simp
    with True Cons.prems show ?thesis by auto
  next
    case False
    then show ?thesis using Cons.IH [of False "cur @ [c]"] by simp
  qed
qed

lemma re_split_split_on_separators:
  "filter (\<lambda>p. p \<noteq> []) (re_split s) = filter (\<lambda>p. p \<noteq> []) (split_on_separators s)"
  using re_split_from_split_on_separators [of False "[]" s] split_on_separators_nonempty [of s]
  by (simp add: re_split_def)

lemma py_strip_Nil [simp]: "py_strip [] = []"
  by (simp add: py_strip_def)

lemma all_dropWhile_iff: "(\<forall>x\<in>set (dropWhile P s). P x) \<longleftrightarrow> (\<forall>x\<in>set s. P x)"
  by (induction s) auto

lemma py_strip_eq_Nil_iff: "py_strip s = [] \<longleftrightarrow> (\<forall>c\<in>set s. py_isspace c)"
  by (simp add: py_strip_def dropWhile_eq_Nil_conv all_dropWhile_iff)

lemma filter_strip_nonempty:
  "filter (\<lambda>p. p \<noteq> []) (map py_strip xs) =
   filter (\<lambda>p. p \<noteq> []) (map py_strip (filter (\<lambda>p. p \<noteq> []) xs))"
  by (induction xs) auto

lemma interest_items_split_on_separators:
  "interest_items raw = filter (\<lambda>p. p \<noteq> []) (map py_strip (split_on_separators raw))"
  unfolding interest_items_def
  by (metis filter_strip_nonempty re_split_split_on_separators)

lemma split_on_separators_chars: "p \<in> set (split_on_separators s) \<Longrightarrow> c \<in> set p \<Longrightarrow> c \<in> set s \<and> \<not> is_sep c"
proof (induction s arbitrary: p)
  case Nil then show ?case by simp
next
  case (Cons d ds)
  have ne: "hd (split_on_separators ds) # tl (split_on_separators ds) = split_on_separators ds"
    using split_on_separators_nonempty by simp
  show ?case
  proof (cases "is_sep d")
    case True
    with Cons show ?thesis by auto
  next
    case False
    from Cons.prems False have "p = d # hd (split_on_separators ds) \<or> p \<in> set (tl (split_on_separators ds))" by simp
    then show ?thesis
    proof
      assume "p = d # hd (split_on_separators ds)"
      with Cons.prems(2) have "c = d \<or> c \<in> set (hd (split_on_separators ds))" by auto
      moreover have "hd (split_on_separators ds) \<in> set (split_on_separators ds)" using split_on_separators_nonempty by simp
      ultimately show ?thesis using False Cons.IH by auto
    next
      assume "p \<in> set (tl (split_on_separators ds))"
      then have "p \<in> set (split_on_separators ds)" by (metis list.set_sel(2) split_on_separators_nonempty)
      then show ?thesis using Cons.IH Cons.prems(2) by auto
    qed
  qed
qed

lemma dropWhile_fix: "xs = [] \<or> \<not> P (hd xs) \<Longrightarrow> dropWhile P xs = xs"
  by (cases xs) auto

lemma last_dropWhile_ne: "dropWhile P xs \<noteq> [] \<Longrightarrow> last (dropWhile P xs) = last xs"
  by (induction xs) (auto split: if_splits)

lemma py_strip_idem: "py_strip (py_strip s) = py_strip s"
proof -
  define a where "a = dropWhile py_isspace s"
  define b where "b = dropWhile py_isspace (rev a)"
  have strip: "py_strip s = rev b" by (simp add: py_strip_def a_def b_def)
  have "rev b = [] \<or> \<not> py_isspace (hd (rev b))"
  proof (cases "b = []")
    case True then show ?thesis by simp
  next
    case False
    then have "last b = last (rev a)" unfolding b_def by (rule last_dropWhile_ne)
    moreover have "rev a \<noteq> []" using False b_def by auto
    then have "a \<noteq> []" by simp
    then have "\<not> py_isspace (hd a)" unfolding a_def by (rule hd_dropWhile)
    moreover have "last (rev a) = hd a" using \<open>a \<noteq> []\<close> by (simp add: last_rev)
    moreover have "hd (rev b) = last b" using False by (simp add: hd_rev)
    ultimately show ?thesis by simp
  qed
  then have "dropWhile py_isspace (rev b) = rev b" by (rule dropWhile_fix)
  moreover have "dropWhile py_isspace b = b" unfolding b_def by simp
  ultimately have "py_strip (rev b) = rev b" by (simp add: py_strip_def)
  then show ?thesis by (simp add: strip)
qed

lemma py_strip_space_prefix:
  "\<forall>c\<in>set ws. py_isspace c \<Longrightarrow> py_strip (ws @ x) = py_strip x"
  by (simp add: py_strip_def dropWhile_append2)

lemma set_py_strip: "c \<in> set (py_strip s) \<Longrightarrow> c \<in> set s"
  unfolding py_strip_def by (auto dest!: set_dropWhileD)

lemma interest_items_tidy: "x \<in> set (interest_items raw) \<Longrightarrow> tidy x"
  unfolding interest_items_split_on_separators tidy_def
  by (auto simp: py_strip_idem dest: set_py_strip split_on_separators_chars)

lemma interest_items_blank: "py_strip raw = [] \<Longrightarrow> interest_items raw = []"
  unfolding interest_items_split_on_separators py_strip_eq_Nil_iff
  by (auto simp: filter_empty_conv py_strip_eq_Nil_iff dest: split_on_separators_chars)

lemma split_on_separators_no_sep: "\<forall>c\<in>set x. \<not> is_sep c \<Longrightarrow> split_on_separators x = [x]"
  by (induction x) auto

lemma split_on_separators_append_sep:
  "\<forall>c\<in>set x. \<not> is_sep c \<Longrightarrow> is_sep d \<Longrightarrow> split_on_separators (x @ d # rest) = x # split_on_separators rest"
  by (induction x) auto

lemma split_on_separators_join:
  assumes d: "is_sep d" and sp: "\<forall>c\<in>set sp. py_isspace c \<and> \<not> is_sep c"
  shows "xs \<noteq> [] \<Longrightarrow> \<forall>x\<in>set xs. tidy x \<Longrightarrow> \<forall>c\<in>set ws. py_isspace c \<and> \<not> is_sep c \<Longrightarrow>
   map py_strip (split_on_separators (ws @ py_join (d # sp) xs)) = xs"
proof (induction xs arbitrary: ws rule: induct_list012)
  case 1
  then show ?case by simp
next
  case (2 x)
  then have "\<forall>c\<in>set (ws @ x). \<not> is_sep c" by (auto simp: tidy_def)
  then have "split_on_separators (ws @ x) = [ws @ x]" by (rule split_on_separators_no_sep)
  with 2 show ?case by (simp add: py_strip_space_prefix tidy_def)
next
  case (3 x y xs)
  have nosep: "\<forall>c\<in>set (ws @ x). \<not> is_sep c" using 3 by (auto simp: tidy_def)
  have "split_on_separators (ws @ py_join (d # sp) (x # y # xs)) =
        split_on_separators ((ws @ x) @ d # (sp @ py_join (d # sp) (y # xs)))" by simp
  also have "\<dots> = (ws @ x) # split_on_separators (sp @ py_join (d # sp) (y # xs))"
    using nosep d by (rule split_on_separators_append_sep)
  finally have "map py_strip (split_on_separators (ws @ py_join (d # sp) (x # y # xs))) =
     py_strip (ws @ x) # map py_strip (split_on_separators (sp @ py_join (d # sp) (y # xs)))"
    by simp
  moreover have "map py_strip (split_on_separators (sp @ py_join (d # sp) (y # xs))) = y # xs"
    using 3 sp by (intro "3.IH"(2)) auto
  moreover have "py_strip (ws @ x) = x" using 3 by (simp add: py_strip_space_prefix tidy_def)
  ultimately show ?case by simp
qed

lemma interest_items_join:
  assumes "is_sep d" and "\<forall>c\<in>set sp. py_isspace c \<and> \<not> is_sep c" and "\<forall>x\<in>set xs. tidy x"
  shows "interest_items (py_join (d # sp) xs) = xs"
proof (cases "xs = []")
  case True
  then show ?thesis by (simp add: interest_items_split_on_separators)
next
  case False
  then have "map py_strip (split_on_separators ([] @ py_join (d # sp) xs)) = xs"
    using assms by (intro split_on_separators_join) auto
  then have "interest_items (py_join (d # sp) xs) = filter (\<lambda>p. p \<noteq> []) xs"
    by (simp add: interest_items_split_on_separators)
  moreover have "filter (\<lambda>p. p \<noteq> []) xs = xs" using assms(3) by (auto simp: tidy_def filter_id_conv)
  ultimately show ?thesis by simp
qed

lemma dedup_loop_result: "dedup_loop seen result its = result @ dedup_loop seen [] its"
proof (induction its arbitrary: seen result)
  case Nil
  then show ?case by simp
next
  case (Cons it its)
  show ?case
    using Cons.IH [of "py_lower it # seen" "result @ [it]"] Cons.IH [of "py_lower it # seen" "[it]"]
      Cons.IH [of seen result]
    by simp
qed

lemma dedup_loop_Cons:
  "dedup_loop seen [] (it # its) =
     (if py_lower it \<notin> set seen then it # dedup_loop (py_lower it # seen) [] its
      else dedup_loop seen [] its)"
  using dedup_loop_result [of "py_lower it # seen" "[it]" its] by simp

lemma dedup_loop_keys:
  "py_lower ` set (dedup_loop seen [] its) = py_lower ` set its - set seen"
  by (induction its arbitrary: seen) (auto simp: dedup_loop_Cons simp del: dedup_loop.simps(2))

lemma dedup_loop_distinct: "distinct (map py_lower (dedup_loop seen [] its))"
proof (induction its arbitrary: seen)
  case Nil
  then show ?case by simp
next
  case (Cons it its)
  have "py_lower it \<notin> py_lower ` set (dedup_loop (py_lower it # seen) [] its)"
    by (simp add: dedup_loop_keys)
  with Cons show ?case by (simp add: dedup_loop_Cons del: dedup_loop.simps(2))
qed

lemma dedup_loop_subseq: "subseq (dedup_loop seen [] its) its"
  by (induction its arbitrary: seen) (auto simp: dedup_loop_Cons simp del: dedup_loop.simps(2))

lemma dedup_loop_first:
  "x \<in> set (dedup_loop seen [] its) \<Longrightarrow> find (\<lambda>y. py_lower y = py_lower x) its = Some x"
proof (induction its arbitrary: seen)
  case Nil
  then show ?case by simp
next
  case (Cons it its)
  show ?case
  proof (cases "py_lower it \<notin> set seen")
    case True
    with Cons.prems have "x = it \<or> x \<in> set (dedup_loop (py_lower it # seen) [] its)"
      by (simp add: dedup_loop_Cons del: dedup_loop.simps(2))
    then show ?thesis
    proof
      assume "x = it" then show ?thesis by simp
    next
      assume x: "x \<in> set (dedup_loop (py_lower it # seen) [] its)"
      then have "py_lower x \<in> py_lower ` set its - set (py_lower it # seen)"
        using dedup_loop_keys [of "py_lower it # seen" its] by blast
      then have "py_lower it \<noteq> py_lower x" by auto
      with Cons.IH [OF x] show ?thesis by simp
    qed
  next
    case False
    with Cons.prems have x: "x \<in> set (dedup_loop seen [] its)" by (simp add: dedup_loop_Cons del: dedup_loop.simps(2))
    then have "py_lower x \<in> py_lower ` set its - set seen"
      using dedup_loop_keys [of seen its] by blast
    with False have "py_lower it \<noteq> py_lower x" by auto
    with Cons.IH [OF x] show ?thesis by simp
  qed
qed

lemma dedup_loop_id:
  "distinct (map py_lower its) \<Longrightarrow> py_lower ` set its \<inter> set seen = {} \<Longrightarrow>
   dedup_loop seen [] its = its"
  by (induction its arbitrary: seen) (auto simp: dedup_loop_Cons simp del: dedup_loop.simps(2))

lemma check_interests_None_iff:
  "check_interests xs banned = None \<longleftrightarrow>
   (\<forall>x\<in>set xs. 1 \<le> length x \<and> length x \<le> 50 \<and> contains_banned_words x banned = None)"
  by (induction xs) auto

lemma starts_with_iff: "starts_with w s \<longleftrightarrow> (\<exists>b. s = w @ b)"
  by (induction w s rule: starts_with.induct) auto

lemma py_in_iff: "py_in w s \<longleftrightarrow> (\<exists>a b. s = a @ w @ b)"
proof (induction s)
  case Nil
  then show ?case by auto
next
  case (Cons c s)
  show ?case
  proof
    assume "py_in w (c # s)"
    then consider "starts_with w (c # s)" | "py_in w s" by auto
    then show "\<exists>a b. c # s = a @ w @ b"
    proof cases
      case 1
      then obtain b where "c # s = w @ b" by (auto simp: starts_with_iff)
      then have "c # s = [] @ w @ b" by simp
      then show ?thesis by blast
    next
      case 2
      then obtain a b where "s = a @ w @ b" using Cons.IH by auto
      then have "c # s = (c # a) @ w @ b" by simp
      then show ?thesis by blast
    qed
  next
    assume "\<exists>a b. c # s = a @ w @ b"
    then obtain a b where ab: "c # s = a @ w @ b" by auto
    show "py_in w (c # s)"
    proof (cases a)
      case Nil
      with ab have "starts_with w (c # s)" by (auto simp: starts_with_iff)
      then show ?thesis by simp
    next
      case (Cons d a')
      with ab have "s = a' @ w @ b" by simp
      then have "py_in w s" using Cons.IH by auto
      then show ?thesis by simp
    qed
  qed
qed

lemma contains_banned_words_iff:
  "contains_banned_words text banned \<noteq> None \<longleftrightarrow>
   (\<exists>w\<in>set banned. py_lower (py_strip w) \<noteq> [] \<and> py_in (py_lower (py_strip w)) (py_lower text))"
  by (induction banned) (auto simp: Let_def)

section \<open>Interest lists\<close>

lemma banned_free_iff:
  "contains_banned_words x banned = None \<longleftrightarrow>
   \<not> (\<exists>w\<in>set banned. py_lower (py_strip w) \<noteq> [] \<and>
          (\<exists>a b. py_lower x = a @ py_lower (py_strip w) @ b))"
  using contains_banned_words_iff [of x banned, unfolded py_in_iff] by blast

lemma check_interests_None: "check_interests xs banned = None \<longleftrightarrow> (\<forall>x\<in>set xs. item_ok banned x)"
  unfolding check_interests_None_iff item_ok_def banned_free_iff by simp

lemma check_interests_Some:
  "check_interests xs banned = Some e \<Longrightarrow>
   \<exists>x\<in>set xs. \<not> item_ok banned x \<and> (e = BadLength x \<or> e = BannedWord x)"
proof (induction xs)
  case Nil
  then show ?case by simp
next
  case (Cons x xs)
  show ?case
  proof (cases "1 \<le> length x \<and> length x \<le> 50 \<and> contains_banned_words x banned = None")
    case True
    with Cons show ?thesis by auto
  next
    case False
    then have "\<not> item_ok banned x" unfolding item_ok_def banned_free_iff by blast
    moreover from False Cons.prems have "e = BadLength x \<or> e = BannedWord x"
      by (auto split: if_splits)
    ultimately show ?thesis by auto
  qed
qed

lemma normalize_interests_Inr_iff:
  "normalize_interests raw banned = Inr r \<longleftrightarrow>
     (py_strip raw = [] \<and> r = []) \<or>
     (py_strip raw \<noteq> [] \<and> length (interest_items raw) \<le> 30 \<and>
      (\<forall>x\<in>set (interest_items raw). item_ok banned x) \<and>
      r = dedup_loop [] [] (interest_items raw) \<and> sum_list (map length r) \<le> 300)"
  using check_interests_None [of "interest_items raw" banned]
  by (auto simp: normalize_interests_def Let_def split: option.splits)

lemma normalize_interests_TooMany_iff:
  "normalize_interests raw banned = Inl TooManyValues \<longleftrightarrow> length (interest_items raw) > 30"
proof -
  have "check_interests (interest_items raw) banned \<noteq> Some TooManyValues"
    using check_interests_Some [of "interest_items raw" banned TooManyValues] by auto
  moreover have "py_strip raw = [] \<Longrightarrow> length (interest_items raw) = 0"
    by (simp add: interest_items_blank)
  ultimately show ?thesis
    by (auto simp: normalize_interests_def Let_def split: option.splits)
qed

lemma normalize_interests_TotalTooLong_iff:
  "normalize_interests raw banned = Inl TotalTooLong \<longleftrightarrow>
     length (interest_items raw) \<le> 30 \<and> (\<forall>x\<in>set (interest_items raw). item_ok banned x) \<and>
     sum_list (map length (dedup_loop [] [] (interest_items raw))) > 300"
proof -
  have "check_interests (interest_items raw) banned \<noteq> Some TotalTooLong"
    using check_interests_Some [of "interest_items raw" banned TotalTooLong] by auto
  moreover have "py_strip raw = [] \<Longrightarrow> interest_items raw = []"
    by (simp add: interest_items_blank)
  ultimately show ?thesis
    using check_interests_None [of "interest_items raw" banned]
    by (auto simp: normalize_interests_def Let_def split: option.splits)
qed

lemma normalize_interests_item_error_iff:
  "(\<exists>x. normalize_interests raw banned = Inl (BadLength x) \<or>
        normalize_interests raw banned = Inl (BannedWord x)) \<longleftrightarrow>
     length (interest_items raw) \<le> 30 \<and> (\<exists>x\<in>set (interest_items raw). \<not> item_ok banned x)"
proof -
  have blank: "py_strip raw = [] \<Longrightarrow> interest_items raw = []"
    by (simp add: interest_items_blank)
  show ?thesis
  proof (cases "check_interests (interest_items raw) banned")
    case None
    then show ?thesis using check_interests_None [of "interest_items raw" banned]
      by (auto simp: normalize_interests_def Let_def)
  next
    case (Some e)
    from check_interests_Some [OF Some] obtain x where
      x: "x \<in> set (interest_items raw)" "\<not> item_ok banned x" "e = BadLength x \<or> e = BannedWord x"
      by auto
    then have "py_strip raw \<noteq> []" using blank by auto
    with Some x show ?thesis
      by (auto simp: normalize_interests_def Let_def)
  qed
qed

lemma dedup_loop_spec:
  "subseq (dedup_loop [] [] xs) xs \<and>
   distinct (map py_lower (dedup_loop [] [] xs)) \<and>
   py_lower ` set (dedup_loop [] [] xs) = py_lower ` set xs \<and>
   (\<forall>y\<in>set (dedup_loop [] [] xs). find (\<lambda>z. py_lower z = py_lower y) xs = Some y)"
  using dedup_loop_subseq [of "[]" xs] dedup_loop_distinct [of "[]" xs]
    dedup_loop_keys [of "[]" xs] dedup_loop_first [of _ "[]" xs]
  by simp

text \<open>
  C8. \<open>normalize_interests\<close> cuts its input at commas, semicolons and newlines and trims
  every piece, dropping the empty ones; input that is empty after trimming gives the empty
  list and no error; more than 30 items are rejected; an item longer than 50 characters or
  containing a banned word (compared in lower case) is rejected; the result keeps, in
  order, the first item of every lower-case form; a result of more than 300 characters in
  total is rejected.
\<close>

theorem normalize_interests_rules:
  "interest_items raw = filter (\<lambda>p. p \<noteq> []) (map py_strip (split_on_separators raw))
   \<and> (py_strip raw = [] \<longrightarrow> normalize_interests raw banned = Inr [])
   \<and> (normalize_interests raw banned = Inl TooManyValues \<longleftrightarrow> 30 < length (interest_items raw))
   \<and> ((\<exists>x. normalize_interests raw banned = Inl (BadLength x) \<or>
            normalize_interests raw banned = Inl (BannedWord x)) \<longleftrightarrow>
        length (interest_items raw) \<le> 30 \<and> (\<exists>x\<in>set (interest_items raw). \<not> item_ok banned x))
   \<and> (normalize_interests raw banned = Inl TotalTooLong \<longleftrightarrow>
        length (interest_items raw) \<le> 30 \<and> (\<forall>x\<in>set (interest_items raw). item_ok banned x) \<and>
        300 < sum_list (map length (dedup_loop [] [] (interest_items raw))))
   \<and> (normalize_interests raw banned = Inr r \<longleftrightarrow>
        (py_strip raw = [] \<and> r = []) \<or>
        (py_strip raw \<noteq> [] \<and> length (interest_items raw) \<le> 30 \<and>
         (\<forall>x\<in>set (interest_items raw). item_ok banned x) \<and>
         r = dedup_loop [] [] (interest_items raw) \<and> sum_list (map length r) \<le> 300))
   \<and> (subseq (dedup_loop [] [] xs) xs \<and>
        distinct (map py_lower (dedup_loop [] [] xs)) \<and>
        py_lower ` set (dedup_loop [] [] xs) = py_lower ` set xs \<and>
        (\<forall>y\<in>set (dedup_loop [] [] xs). find (\<lambda>z. py_lower z = py_lower y) xs = Some y))"
proof -
  have a: "interest_items raw = filter (\<lambda>p. p \<noteq> []) (map py_strip (split_on_separators raw))"
    by (rule interest_items_split_on_separators)
  have b: "py_strip raw = [] \<longrightarrow> normalize_interests raw banned = Inr []"
    by (simp add: normalize_interests_def)
  note c = normalize_interests_TooMany_iff [of raw banned]
  note d = normalize_interests_item_error_iff [of raw banned]
  note e = normalize_interests_TotalTooLong_iff [of raw banned]
  note f = normalize_interests_Inr_iff [of raw banned r]
  note g = dedup_loop_spec [of xs]
  show ?thesis
    by (rule conjI [OF a conjI [OF b conjI [OF c conjI [OF d conjI [OF e conjI [OF f g]]]]]])
qed

theorem normalize_interests_rules_witness:
  "normalize_interests ''go, Go, rust,  , music'' [''rust''] = Inl (BannedWord ''rust'')
   \<and> normalize_interests ''go, Go, music'' [''rust''] = Inr [''go'', ''music'']
   \<and> normalize_interests ''  '' [''rust''] = Inr []
   \<and> list_all (item_ok [''rust'']) (interest_items ''go, Go, music'')
   \<and> (\<exists>x\<in>set (interest_items ''go, Go, rust,  , music''). \<not> item_ok [''rust''] x)"
proof -
  have a: "normalize_interests ''go, Go, rust,  , music'' [''rust''] = Inl (BannedWord ''rust'')"
    by code_simp
  have b: "normalize_interests ''go, Go, music'' [''rust''] = Inr [''go'', ''music'']"
    by code_simp
  have blank: "py_strip ''  '' = []" by code_simp
  have filled: "py_strip ''go, Go, music'' \<noteq> []" by code_simp
  have c: "normalize_interests ''  '' [''rust''] = Inr []"
    using normalize_interests_rules [where raw = "''  ''" and banned = "[''rust'']",
        THEN conjunct2, THEN conjunct1] blank
    by (rule mp)
  have "(py_strip ''go, Go, music'' = [] \<and> [''go'', ''music''] = []) \<or>
        (py_strip ''go, Go, music'' \<noteq> [] \<and> length (interest_items ''go, Go, music'') \<le> 30 \<and>
         (\<forall>x\<in>set (interest_items ''go, Go, music''). item_ok [''rust''] x) \<and>
         [''go'', ''music''] = dedup_loop [] [] (interest_items ''go, Go, music'') \<and>
         sum_list (map length [''go'', ''music'']) \<le> 300)"
    using normalize_interests_rules [where raw = "''go, Go, music''" and banned = "[''rust'']"
        and r = "[''go'', ''music'']", THEN conjunct2, THEN conjunct2, THEN conjunct2,
        THEN conjunct2, THEN conjunct2, THEN conjunct1] b
    by (rule iffD1)
  with filled have "\<forall>x\<in>set (interest_items ''go, Go, music''). item_ok [''rust''] x"
    by blast
  then have d: "list_all (item_ok [''rust'']) (interest_items ''go, Go, music'')"
    by (simp add: list_all_iff)
  have "\<exists>x. normalize_interests ''go, Go, rust,  , music'' [''rust''] = Inl (BadLength x) \<or>
            normalize_interests ''go, Go, rust,  , music'' [''rust''] = Inl (BannedWord x)"
    using a by blast
  with normalize_interests_rules [where raw = "''go, Go, rust,  , music''"
        and banned = "[''rust'']", THEN conjunct2, THEN conjunct2, THEN conjunct2, THEN conjunct1]
  have e: "\<exists>x\<in>set (interest_items ''go, Go, rust,  , music''). \<not> item_ok [''rust''] x"
    by blast
  from a b c d e show ?thesis by blast
qed

lemma normalize_interests_idem_aux:
  assumes "normalize_interests raw banned = Inr r"
    and d: "is_sep d" and sp: "\<forall>c\<in>set sp. py_isspace c \<and> \<not> is_sep c"
  shows "normalize_interests (py_join (d # sp) r) banned = Inr r"
proof (cases "py_strip raw = []")
  case True
  with assms(1) have "r = []" by (simp add: normalize_interests_Inr_iff)
  then show ?thesis by (simp add: normalize_interests_def)
next
  case False
  let ?items = "interest_items raw"
  from assms(1) False have len: "length ?items \<le> 30"
    and ok: "\<forall>x\<in>set ?items. item_ok banned x"
    and r: "r = dedup_loop [] [] ?items"
    and total: "sum_list (map length r) \<le> 300"
    by (auto simp: normalize_interests_Inr_iff)
  have sub: "subseq r ?items" unfolding r by (rule dedup_loop_subseq)
  then have rset: "set r \<subseteq> set ?items" using list_emb_set [of "(=)" r "interest_items raw"] by auto
  have rlen: "length r \<le> 30" using list_emb_length [OF sub] len by simp
  have tidy: "\<forall>x\<in>set r. tidy x" using rset interest_items_tidy by blast
  have items': "interest_items (py_join (d # sp) r) = r"
    using d sp tidy by (rule interest_items_join)
  have dist: "distinct (map py_lower r)" unfolding r by (rule dedup_loop_distinct)
  have dd: "dedup_loop [] [] r = r" using dist by (simp add: dedup_loop_id)
  have ok': "\<forall>x\<in>set r. item_ok banned x" using ok rset by blast
  show ?thesis
  proof (cases "py_strip (py_join (d # sp) r) = []")
    case True
    then have "interest_items (py_join (d # sp) r) = []" by (rule interest_items_blank)
    with items' have "r = []" by simp
    then show ?thesis by (simp add: normalize_interests_def)
  next
    case False
    then show ?thesis using items' rlen ok' dd total
      by (simp add: normalize_interests_Inr_iff)
  qed
qed

text \<open>
  C9. Normalising the output of \<open>normalize_interests\<close>, joined again with a separator
  (a comma, semicolon or newline, followed by any blanks), succeeds and returns the same
  list; so it does for the output joined with a comma and a space.
\<close>

theorem normalize_interests_idempotent:
  assumes "normalize_interests raw banned = Inr r"
  shows "normalize_interests (py_join '', '' r) banned = Inr r
       \<and> (is_sep d \<longrightarrow> (\<forall>c\<in>set sp. py_isspace c \<and> \<not> is_sep c) \<longrightarrow>
          normalize_interests (py_join (d # sp) r) banned = Inr r)"
proof -
  have a: "is_sep CHR '',''" by (simp add: is_sep_def)
  have b: "\<forall>c\<in>set '' ''. py_isspace c \<and> \<not> is_sep c"
    by (simp add: py_isspace_def is_sep_def)
  from normalize_interests_idem_aux [OF assms a b]
    normalize_interests_idem_aux [OF assms, of d sp]
  show ?thesis by simp
qed

theorem normalize_interests_idempotent_witness:
  "normalize_interests ''go, Go, music'' [''rust''] = Inr [''go'', ''music'']
   \<and> py_join '', '' [''go'', ''music''] = ''go, music''
   \<and> normalize_interests ''go, music'' [''rust''] = Inr [''go'', ''music'']"
proof -
  have h: "normalize_interests ''go, Go, music'' [''rust''] = Inr [''go'', ''music'']"
    by code_simp
  have j: "py_join '', '' [''go'', ''music''] = ''go, music''" by simp
  from normalize_interests_idempotent [OF h, THEN conjunct1] j
  have "normalize_interests ''go, music'' [''rust''] = Inr [''go'', ''music'']" by simp
  with h j show ?thesis by blast
qed

section \<open>Registration: the code format check, taken addresses, the resend cooldown\<close>

lemma newest_mem: "newest rows cand = Some i \<Longrightarrow> i \<in> set cand"
  by (induction cand arbitrary: i) (auto split: option.splits if_splits)

lemma newest_None_iff: "newest rows cand = None \<longleftrightarrow> cand = []"
  by (cases cand) (auto split: option.splits)

lemma user_rows_mem: "i \<in> set (user_rows uid rows) \<longleftrightarrow> i < length rows \<and> otp_user_id (rows ! i) = uid"
  by (auto simp: user_rows_def)

lemma unused_rows_mem:
  "i \<in> set (unused_rows uid rows) \<longleftrightarrow>
   i < length rows \<and> otp_user_id (rows ! i) = uid \<and> used_at (rows ! i) = None"
  by (auto simp: unused_rows_def)

lemma email_unique_holders:
  "email_unique rows \<Longrightarrow> length (filter (\<lambda>w. email w = Some t \<and> Q w) rows) \<le> 1"
proof (induction rows)
  case Nil
  then show ?case by simp
next
  case (Cons w ws)
  from Cons.prems have u: "email_unique ws"
    by (auto simp: email_unique_def List.map_filter_simps split: option.splits)
  show ?case
  proof (cases "email w = Some t")
    case True
    with Cons.prems have "t \<notin> set (List.map_filter email ws)"
      by (simp add: email_unique_def List.map_filter_simps)
    moreover have "\<And>x. x \<in> set ws \<Longrightarrow> email x = Some t \<Longrightarrow> t \<in> set (List.map_filter email ws)"
      by (force simp: List.map_filter_def)
    ultimately have "filter (\<lambda>w. email w = Some t \<and> Q w) ws = []"
      by (auto simp: filter_empty_conv)
    then show ?thesis by simp
  next
    case False
    then show ?thesis using Cons.IH [OF u] by simp
  qed
qed

lemma code_stage_not_profile:
  "stage u \<in> {stage_new, verifying_email, verifying_email_error, verifying_code, verifying_code_error}
   \<Longrightarrow> stage u \<notin> {profile_name, profile_bio, profile_age, profile_interests}"
  by auto

lemma dispatch_text_registration:
  "stage (account s) \<in> {stage_new, verifying_email, verifying_email_error,
                          verifying_code, verifying_code_error} \<Longrightarrow>
   on_email_or_code cfg ev raw s = Inr r \<Longrightarrow> dispatch_text cfg ev raw s = Inr r"
  by (auto simp: dispatch_text_def on_profile_text_def)

text \<open>
  C10. For an account that is not blocked and waits for a code, a text that after trimming
  is not a digit string of 4 to 8 characters is answered with the prompt only: nothing of
  the store changes but the activity stamp.
\<close>

theorem malformed_code_only_reprompts:
  assumes "status (account s) \<noteq> status_blocked"
    and "stage (account s) \<in> {verifying_code, verifying_code_error}"
    and "\<not> (py_isdigit (py_strip raw) \<and> 4 \<le> length (py_strip raw) \<and> length (py_strip raw) \<le> 8)"
  shows "on_email_or_code cfg ev raw s =
           Inr (s\<lparr>account := (account s)\<lparr>last_activity := clock_activity ev\<rparr>\<rparr>,
                [ToUser CodeFormatPrompt])
         \<and> dispatch_text cfg ev raw s = on_email_or_code cfg ev raw s"
proof -
  have a: "on_email_or_code cfg ev raw s =
           Inr (s\<lparr>account := (account s)\<lparr>last_activity := clock_activity ev\<rparr>\<rparr>,
                [ToUser CodeFormatPrompt])"
    using assms by (auto simp: on_email_or_code_def otp_step_def Let_def)
  have "stage (account s) \<in> {stage_new, verifying_email, verifying_email_error,
                          verifying_code, verifying_code_error}" using assms(2) by auto
  from dispatch_text_registration [OF this a] a show ?thesis by simp
qed

text \<open>
  C5. At an e-mail stage, an address that another account already holds never moves the
  attempt counter, the stage or the status, whatever the validation settings are; for an
  account that is not blocked the answer is the message that the address is taken, and the
  store changes in the activity stamp and in one row added to the ledger, which holds the
  value.
\<close>

theorem taken_email_not_counted:
  assumes "stage (account s) \<in> {stage_new, verifying_email, verifying_email_error}"
    and "email_unique (other_users s)"
    and "\<exists>w\<in>set (other_users s). email w = Some (py_strip raw) \<and>
           telegram_id w \<noteq> telegram_id (account s)"
  shows "(status (account s) \<noteq> status_blocked \<longrightarrow>
          on_email_or_code cfg ev raw s =
            Inr (s\<lparr>account := (account s)\<lparr>last_activity := clock_activity ev\<rparr>,
                   auth_attempts :=
                     \<lparr>attempt_user_id = user_id (account s), attempt_type = type_email,
                       attempt_value = py_strip raw, attempt_ts = db_now ev\<rparr> #
                     auth_attempts s\<rparr>,
                 [ToUser EmailTaken]))
       \<and> (\<exists>s' out. on_email_or_code cfg ev raw s = Inr (s', out) \<and>
             email_attempts (account s') = email_attempts (account s) \<and>
             stage (account s') = stage (account s) \<and>
             status (account s') = status (account s))"
proof -
  let ?h = "filter (\<lambda>w. email w = Some (py_strip raw) \<and> telegram_id w \<noteq> telegram_id (account s))
              (other_users s)"
  have le: "length ?h \<le> 1" using assms(2) by (rule email_unique_holders)
  have ne: "?h \<noteq> []" using assms(3) by (auto simp: filter_empty_conv)
  have a: "status (account s) \<noteq> status_blocked \<Longrightarrow>
          on_email_or_code cfg ev raw s =
            Inr (s\<lparr>account := (account s)\<lparr>last_activity := clock_activity ev\<rparr>,
                   auth_attempts :=
                     \<lparr>attempt_user_id = user_id (account s), attempt_type = type_email,
                       attempt_value = py_strip raw, attempt_ts = db_now ev\<rparr> #
                     auth_attempts s\<rparr>,
                 [ToUser EmailTaken])"
    using assms(1) le ne
    by (auto simp: on_email_or_code_def email_step_def log_attempt_def Let_def)
  have b: "status (account s) = status_blocked \<Longrightarrow>
          on_email_or_code cfg ev raw s =
            Inr (s\<lparr>account := (account s)\<lparr>last_activity := clock_activity ev\<rparr>\<rparr>,
                 [ToUser BlockedNotice])"
    using assms(1) by (auto simp: on_email_or_code_def Let_def)
  have "\<exists>s' out. on_email_or_code cfg ev raw s = Inr (s', out) \<and>
             email_attempts (account s') = email_attempts (account s) \<and>
             stage (account s') = stage (account s) \<and>
             status (account s') = status (account s)"
  proof (cases "status (account s) = status_blocked")
    case True
    from b [OF True] show ?thesis by simp
  next
    case False
    from a [OF False] show ?thesis by simp
  qed
  with a show ?thesis by blast
qed

text \<open>
  C6. When the account's current unused code is not expired and was last sent less than
  the cooldown ago, a resend request stores nothing and mails nothing: the code rows are
  as before, and the answer is the success flag with the cooldown advisory.
\<close>

theorem resend_within_cooldown:
  assumes "newest (otp_rows s) (unused_rows (user_id (account s)) (otp_rows s)) = Some i"
    and "clock_now ev < expires_at (otp_rows s ! i)"
    and "clock_now ev - last_sent_at (otp_rows s ! i) < timedelta_seconds (otp_cooldown_seconds cfg)"
  shows "send_or_resend_otp cfg ev (account s) (otp_rows s) =
           Inr (otp_rows s, (True, Some warn_cooldown), [])
         \<and> (status (account s) \<noteq> status_blocked \<longrightarrow>
            stage (account s) \<in> {verifying_code, verifying_code_error} \<longrightarrow>
            cb_otp_resend cfg ev s =
              Inr (s\<lparr>account := (account s)\<lparr>last_activity := clock_activity ev\<rparr>\<rparr>,
                   [ToUser (ResendDone True (Some warn_cooldown))]))
         \<and> (\<exists>s' out. cb_otp_resend cfg ev s = Inr (s', out) \<and> otp_rows s' = otp_rows s)"
proof -
  have a: "\<And>u. user_id u = user_id (account s) \<Longrightarrow>
        send_or_resend_otp cfg ev u (otp_rows s) = Inr (otp_rows s, (True, Some warn_cooldown), [])"
    using assms by (simp add: send_or_resend_otp_def Let_def)
  have b: "send_or_resend_otp cfg ev ((account s)\<lparr>last_activity := clock_activity ev\<rparr>) (otp_rows s)
          = Inr (otp_rows s, (True, Some warn_cooldown), [])"
    by (rule a) simp
  have c: "status (account s) \<noteq> status_blocked \<longrightarrow>
            stage (account s) \<in> {verifying_code, verifying_code_error} \<longrightarrow>
            cb_otp_resend cfg ev s =
              Inr (s\<lparr>account := (account s)\<lparr>last_activity := clock_activity ev\<rparr>\<rparr>,
                   [ToUser (ResendDone True (Some warn_cooldown))])"
    using b by (auto simp: cb_otp_resend_def Let_def)
  have d: "\<exists>s' out. cb_otp_resend cfg ev s = Inr (s', out) \<and> otp_rows s' = otp_rows s"
    using b by (auto simp: cb_otp_resend_def Let_def)
  from a [of "account s"] c d show ?thesis by blast
qed

theorem malformed_code_only_reprompts_witness:
  "status (account sample_db) \<noteq> status_blocked
   \<and> stage (account sample_db) \<in> {verifying_code, verifying_code_error}
   \<and> \<not> (py_isdigit (py_strip ''12ab'') \<and> 4 \<le> length (py_strip ''12ab'') \<and>
          length (py_strip ''12ab'') \<le> 8)
   \<and> on_email_or_code sample_settings sample_env ''12ab'' sample_db =
        Inr (sample_db\<lparr>account := (account sample_db)\<lparr>last_activity := clock_activity sample_env\<rparr>\<rparr>,
             [ToUser CodeFormatPrompt])"
proof -
  have h1: "status (account sample_db) \<noteq> status_blocked" by code_simp
  have h2: "stage (account sample_db) \<in> {verifying_code, verifying_code_error}"
    by (simp add: sample_db_def sample_account_def)
  have h3: "\<not> (py_isdigit (py_strip ''12ab'') \<and> 4 \<le> length (py_strip ''12ab'') \<and>
          length (py_strip ''12ab'') \<le> 8)" by code_simp
  from malformed_code_only_reprompts [OF h1 h2 h3, of sample_settings sample_env]
  have "on_email_or_code sample_settings sample_env ''12ab'' sample_db =
        Inr (sample_db\<lparr>account := (account sample_db)\<lparr>last_activity := clock_activity sample_env\<rparr>\<rparr>,
             [ToUser CodeFormatPrompt])" by (rule conjunct1)
  with h1 h2 h3 show ?thesis by blast
qed

theorem taken_email_not_counted_witness:
  "email_unique (other_users sample_db)
   \<and> (\<exists>w\<in>set (other_users sample_db). email w = Some (py_strip ''b@corp.com'') \<and>
         telegram_id w \<noteq> telegram_id sample_account)
   \<and> on_email_or_code sample_settings sample_env ''b@corp.com''
        (sample_db\<lparr>account := sample_account\<lparr>stage := verifying_email\<rparr>\<rparr>) =
      Inr (sample_db\<lparr>account := sample_account\<lparr>stage := verifying_email, last_activity := 50000000\<rparr>,
             auth_attempts := [\<lparr>attempt_user_id = 1, attempt_type = type_email,
                                attempt_value = ''b@corp.com'', attempt_ts = 50000000\<rparr>]\<rparr>,
           [ToUser EmailTaken])"
proof -
  let ?s = "sample_db\<lparr>account := sample_account\<lparr>stage := verifying_email\<rparr>\<rparr>"
  have h1: "status (account ?s) \<noteq> status_blocked" by (simp add: sample_account_def)
  have h2: "stage (account ?s) \<in> {stage_new, verifying_email, verifying_email_error}" by simp
  have h3: "email_unique (other_users ?s)"
    by (simp add: email_unique_def sample_db_def other_account_def List.map_filter_simps)
  have strip: "py_strip ''b@corp.com'' = ''b@corp.com''" by code_simp
  have h4: "\<exists>w\<in>set (other_users ?s). email w = Some (py_strip ''b@corp.com'') \<and>
         telegram_id w \<noteq> telegram_id (account ?s)"
    by (simp add: strip sample_db_def other_account_def sample_account_def)
  have led: "user_id sample_account = 1" "auth_attempts sample_db = []"
    by (simp_all add: sample_db_def sample_account_def)
  have "on_email_or_code sample_settings sample_env ''b@corp.com'' ?s =
      Inr (?s\<lparr>account := (account ?s)\<lparr>last_activity := clock_activity sample_env\<rparr>,
             auth_attempts :=
               \<lparr>attempt_user_id = user_id (account ?s), attempt_type = type_email,
                 attempt_value = py_strip ''b@corp.com'', attempt_ts = db_now sample_env\<rparr> #
               auth_attempts ?s\<rparr>, [ToUser EmailTaken])"
    by (rule taken_email_not_counted [OF h2 h3 h4, THEN conjunct1, rule_format, OF h1])
  then have "on_email_or_code sample_settings sample_env ''b@corp.com'' ?s =
      Inr (sample_db\<lparr>account := sample_account\<lparr>stage := verifying_email, last_activity := 50000000\<rparr>,
             auth_attempts := [\<lparr>attempt_user_id = 1, attempt_type = type_email,
                                attempt_value = ''b@corp.com'', attempt_ts = 50000000\<rparr>]\<rparr>,
           [ToUser EmailTaken])"
    by (simp add: led strip sample_env_def)
  moreover from h3 have "email_unique (other_users sample_db)" by simp
  moreover from h4 have "\<exists>w\<in>set (other_users sample_db). email w = Some (py_strip ''b@corp.com'') \<and>
         telegram_id w \<noteq> telegram_id sample_account" by simp
  ultimately show ?thesis by blast
qed

theorem resend_within_cooldown_witness:
  "newest (otp_rows sample_db) (unused_rows (user_id (account sample_db)) (otp_rows sample_db)) = Some 0
   \<and> clock_now sample_env < expires_at (otp_rows sample_db ! 0)
   \<and> clock_now sample_env - last_sent_at (otp_rows sample_db ! 0)
        < timedelta_seconds (otp_cooldown_seconds sample_settings)
   \<and> send_or_resend_otp sample_settings sample_env (account sample_db) (otp_rows sample_db) =
        Inr (otp_rows sample_db, (True, Some warn_cooldown), [])
   \<and> cb_otp_resend sample_settings sample_env sample_db =
        Inr (sample_db\<lparr>account := (account sample_db)\<lparr>last_activity := clock_activity sample_env\<rparr>\<rparr>,
             [ToUser (ResendDone True (Some warn_cooldown))])"
proof -
  have h1: "newest (otp_rows sample_db) (unused_rows (user_id (account sample_db)) (otp_rows sample_db)) = Some 0"
    by code_simp
  have h2: "clock_now sample_env < expires_at (otp_rows sample_db ! 0)" by code_simp
  have h3: "clock_now sample_env - last_sent_at (otp_rows sample_db ! 0)
        < timedelta_seconds (otp_cooldown_seconds sample_settings)" by code_simp
  have h4: "status (account sample_db) \<noteq> status_blocked" by code_simp
  have h5: "stage (account sample_db) \<in> {verifying_code, verifying_code_error}"
    by (simp add: sample_db_def sample_account_def)
  note t = resend_within_cooldown [OF h1 h2 h3]
  from t have a: "send_or_resend_otp sample_settings sample_env (account sample_db) (otp_rows sample_db) =
        Inr (otp_rows sample_db, (True, Some warn_cooldown), [])" by (rule conjunct1)
  from t [THEN conjunct2, THEN conjunct1] h4 h5
  have b: "cb_otp_resend sample_settings sample_env sample_db =
        Inr (sample_db\<lparr>account := (account sample_db)\<lparr>last_activity := clock_activity sample_env\<rparr>\<rparr>,
             [ToUser (ResendDone True (Some warn_cooldown))])" by blast
  from h1 h2 h3 a b show ?thesis by blast
qed

section \<open>Registration: lockout and the attempt ledger\<close>

lemma notify_admin_on_block_eq:
  "notify_admin_on_block cfg u reason typ ledger logs =
     (if admin_chat_configured cfg
      then (logs @ [block_request (user_id u) reason typ
                      (map attempt_value (last_attempts (user_id u) typ ledger))],
            [ToAdminChat (the (admin_chat_id cfg)) reason typ
               (map attempt_value (last_attempts (user_id u) typ ledger))])
      else (logs, []))"
  by (auto simp: notify_admin_on_block_def admin_chat_configured_def block_request_def Let_def
      split: option.splits)

lemma length_last_attempts: "length (last_attempts uid typ rows) \<le> 3"
  by (simp add: last_attempts_def)






lemma email_step_lockout:
  assumes "filter (\<lambda>w. email w = Some text \<and> telegram_id w \<noteq> telegram_id u) (other_users s) = []"
    and "validate_email text (email_regex cfg) (allowed_domains cfg) \<noteq> None"
    and "email_max_attempts cfg < email_attempts u + 1"
  shows "\<exists>s' out. email_step cfg ev text u s = Inr (s', out) \<and>
           account s' = u\<lparr>email_attempts := email_attempts u + 1,
                           status := status_blocked, stage := verifying_email_error\<rparr> \<and>
           auth_attempts s' = log_attempt (user_id u) type_email text (db_now ev) (auth_attempts s) \<and>
           admin_logs s' =
             (if admin_chat_configured cfg
              then admin_logs s @
                   [block_request (user_id u) too_many_addresses type_email
                      (map attempt_value (last_attempts (user_id u) type_email
                         (log_attempt (user_id u) type_email text (db_now ev) (auth_attempts s))))]
              else admin_logs s) \<and>
           last out = ToUser EmailBlocked"
  using assms
  by (auto simp: email_step_def Let_def notify_admin_on_block_eq)

lemma otp_step_lockout:
  assumes "py_isdigit text \<and> 4 \<le> length text \<and> length text \<le> 8"
    and "newest (otp_rows s) (user_rows (user_id u) (otp_rows s)) = Some i"
    and "clock_now ev < expires_at (otp_rows s ! i)"
    and "used_at (otp_rows s ! i) = None"
    and "text \<noteq> code (otp_rows s ! i)"
    and "otp_max_attempts cfg < otp_attempts u + 1"
  shows "\<exists>s' out. otp_step cfg ev text u s = Inr (s', out) \<and>
           account s' = u\<lparr>otp_attempts := otp_attempts u + 1,
                           status := status_blocked, stage := verifying_code_error\<rparr> \<and>
           auth_attempts s' = log_attempt (user_id u) type_otp text (db_now ev) (auth_attempts s) \<and>
           admin_logs s' =
             (if admin_chat_configured cfg
              then admin_logs s @
                   [block_request (user_id u) too_many_otp_codes type_otp
                      (map attempt_value (last_attempts (user_id u) type_otp
                         (log_attempt (user_id u) type_otp text (db_now ev) (auth_attempts s))))]
              else admin_logs s) \<and>
           last out = ToUser CodeBlocked"
  using assms
  by (auto simp: otp_step_def Let_def notify_admin_on_block_eq)

text \<open>
  C2, amended. When an invalid submission takes the attempt counter of its category
  above the configured maximum, the account becomes blocked, its stage becomes the error
  variant of the category, the counter has gone up by one, the sender is told, and, when
  an admin chat is configured, exactly one block request with the category, its reason and
  at most three ledger values is appended to \<open>admin_log\<close>; with no admin chat configured
  \<open>admin_log\<close> is left as it was.
\<close>

theorem lockout_on_exceeding:
  assumes "status (account s) \<noteq> status_blocked"
  shows "(stage (account s) \<in> {stage_new, verifying_email, verifying_email_error} \<longrightarrow>
          filter (\<lambda>w. email w = Some (py_strip raw) \<and> telegram_id w \<noteq> telegram_id (account s))
            (other_users s) = [] \<longrightarrow>
          validate_email (py_strip raw) (email_regex cfg) (allowed_domains cfg) \<noteq> None \<longrightarrow>
          email_max_attempts cfg < email_attempts (account s) + 1 \<longrightarrow>
          (\<exists>s' out. on_email_or_code cfg ev raw s = Inr (s', out) \<and>
             locked_out cfg type_email s s' \<and>
             email_attempts (account s') = email_attempts (account s) + 1 \<and>
             last out = ToUser EmailBlocked))
       \<and> (stage (account s) \<in> {verifying_code, verifying_code_error} \<longrightarrow>
          py_isdigit (py_strip raw) \<and> 4 \<le> length (py_strip raw) \<and> length (py_strip raw) \<le> 8 \<longrightarrow>
          newest (otp_rows s) (user_rows (user_id (account s)) (otp_rows s)) = Some i \<longrightarrow>
          clock_now ev < expires_at (otp_rows s ! i) \<longrightarrow>
          used_at (otp_rows s ! i) = None \<longrightarrow>
          py_strip raw \<noteq> code (otp_rows s ! i) \<longrightarrow>
          otp_max_attempts cfg < otp_attempts (account s) + 1 \<longrightarrow>
          (\<exists>s' out. on_email_or_code cfg ev raw s = Inr (s', out) \<and>
             locked_out cfg type_otp s s' \<and>
             otp_attempts (account s') = otp_attempts (account s) + 1 \<and>
             last out = ToUser CodeBlocked))"
proof (intro conjI impI)
  let ?u = "(account s)\<lparr>last_activity := clock_activity ev\<rparr>"
  assume st: "stage (account s) \<in> {stage_new, verifying_email, verifying_email_error}"
    and a: "filter (\<lambda>w. email w = Some (py_strip raw) \<and> telegram_id w \<noteq> telegram_id (account s))
            (other_users s) = []"
    and b: "validate_email (py_strip raw) (email_regex cfg) (allowed_domains cfg) \<noteq> None"
    and c: "email_max_attempts cfg < email_attempts (account s) + 1"
  have run: "on_email_or_code cfg ev raw s = email_step cfg ev (py_strip raw) ?u s"
    using assms st by (auto simp: on_email_or_code_def Let_def)
  from a have a': "filter (\<lambda>w. email w = Some (py_strip raw) \<and> telegram_id w \<noteq> telegram_id ?u)
            (other_users s) = []" by simp
  from c have c': "email_max_attempts cfg < email_attempts ?u + 1" by simp
  from email_step_lockout [OF a' b c', of ev] obtain s' out where
    r: "email_step cfg ev (py_strip raw) ?u s = Inr (s', out)"
      "account s' = ?u\<lparr>email_attempts := email_attempts ?u + 1,
                           status := status_blocked, stage := verifying_email_error\<rparr>"
      "auth_attempts s' = log_attempt (user_id ?u) type_email (py_strip raw) (db_now ev) (auth_attempts s)"
      "admin_logs s' =
             (if admin_chat_configured cfg
              then admin_logs s @
                   [block_request (user_id ?u) too_many_addresses type_email
                      (map attempt_value (last_attempts (user_id ?u) type_email
                         (log_attempt (user_id ?u) type_email (py_strip raw) (db_now ev) (auth_attempts s))))]
              else admin_logs s)"
      "last out = ToUser EmailBlocked"
    by blast
  have "locked_out cfg type_email s s'"
    using r(2,3,4) by (simp add: locked_out_def length_last_attempts)
  moreover have "email_attempts (account s') = email_attempts (account s) + 1"
    using r(2) by simp
  ultimately show "\<exists>s' out. on_email_or_code cfg ev raw s = Inr (s', out) \<and>
             locked_out cfg type_email s s' \<and>
             email_attempts (account s') = email_attempts (account s) + 1 \<and>
             last out = ToUser EmailBlocked"
    using r(1,5) run by auto
next
  let ?u = "(account s)\<lparr>last_activity := clock_activity ev\<rparr>"
  assume st: "stage (account s) \<in> {verifying_code, verifying_code_error}"
    and a: "py_isdigit (py_strip raw) \<and> 4 \<le> length (py_strip raw) \<and> length (py_strip raw) \<le> 8"
    and b: "newest (otp_rows s) (user_rows (user_id (account s)) (otp_rows s)) = Some i"
    and c: "clock_now ev < expires_at (otp_rows s ! i)"
    and d: "used_at (otp_rows s ! i) = None"
    and e: "py_strip raw \<noteq> code (otp_rows s ! i)"
    and f: "otp_max_attempts cfg < otp_attempts (account s) + 1"
  have run: "on_email_or_code cfg ev raw s = otp_step cfg ev (py_strip raw) ?u s"
    using assms st by (auto simp: on_email_or_code_def Let_def)
  from b have b': "newest (otp_rows s) (user_rows (user_id ?u) (otp_rows s)) = Some i" by simp
  from f have f': "otp_max_attempts cfg < otp_attempts ?u + 1" by simp
  from otp_step_lockout [OF a b' c d e f'] obtain s' out where
    r: "otp_step cfg ev (py_strip raw) ?u s = Inr (s', out)"
      "account s' = ?u\<lparr>otp_attempts := otp_attempts ?u + 1,
                           status := status_blocked, stage := verifying_code_error\<rparr>"
      "auth_attempts s' = log_attempt (user_id ?u) type_otp (py_strip raw) (db_now ev) (auth_attempts s)"
      "admin_logs s' =
             (if admin_chat_configured cfg
              then admin_logs s @
                   [block_request (user_id ?u) too_many_otp_codes type_otp
                      (map attempt_value (last_attempts (user_id ?u) type_otp
                         (log_attempt (user_id ?u) type_otp (py_strip raw) (db_now ev) (auth_attempts s))))]
              else admin_logs s)"
      "last out = ToUser CodeBlocked"
    by blast
  have "locked_out cfg type_otp s s'"
    using r(2,3,4) by (simp add: locked_out_def length_last_attempts)
  moreover have "otp_attempts (account s') = otp_attempts (account s) + 1"
    using r(2) by simp
  ultimately show "\<exists>s' out. on_email_or_code cfg ev raw s = Inr (s', out) \<and>
             locked_out cfg type_otp s s' \<and>
             otp_attempts (account s') = otp_attempts (account s) + 1 \<and>
             last out = ToUser CodeBlocked"
    using r(1,5) run by auto
qed

theorem lockout_without_admin_chat_counterexample:
  "admin_chat_id sample_settings = None
   \<and> otp_max_attempts sample_settings < otp_attempts (account sample_db) + 1
   \<and> (case on_email_or_code sample_settings sample_env ''000000'' sample_db of
        Inl e \<Rightarrow> False
      | Inr (s', out) \<Rightarrow>
          status (account s') = status_blocked \<and> stage (account s') = verifying_code_error \<and>
          out = [ToUser CodeBlocked] \<and> admin_logs sample_db = [] \<and> admin_logs s' = [])"
  by code_simp

theorem lockout_on_exceeding_witness:
  "status (account sample_db) \<noteq> status_blocked
   \<and> otp_max_attempts (sample_settings\<lparr>admin_chat_id := Some 77\<rparr>) < otp_attempts (account sample_db) + 1
   \<and> (\<exists>s' out. on_email_or_code (sample_settings\<lparr>admin_chat_id := Some 77\<rparr>) sample_env ''000000''
                   sample_db = Inr (s', out) \<and>
         locked_out (sample_settings\<lparr>admin_chat_id := Some 77\<rparr>) type_otp sample_db s' \<and>
         otp_attempts (account s') = otp_attempts (account sample_db) + 1 \<and>
         last out = ToUser CodeBlocked)
   \<and> (case on_email_or_code (sample_settings\<lparr>admin_chat_id := Some 77\<rparr>) sample_env ''000000''
              sample_db of
        Inl e \<Rightarrow> False
      | Inr (s', out) \<Rightarrow>
          admin_logs s' = [block_request 1 too_many_otp_codes type_otp [''000000'']])"
proof -
  let ?cfg = "sample_settings\<lparr>admin_chat_id := Some 77\<rparr>"
  have h0: "status (account sample_db) \<noteq> status_blocked" by code_simp
  have h1: "stage (account sample_db) \<in> {verifying_code, verifying_code_error}"
    by (simp add: sample_db_def sample_account_def)
  have h2: "py_isdigit (py_strip ''000000'') \<and> 4 \<le> length (py_strip ''000000'') \<and>
            length (py_strip ''000000'') \<le> 8" by code_simp
  have h3: "newest (otp_rows sample_db) (user_rows (user_id (account sample_db)) (otp_rows sample_db))
            = Some 0" by code_simp
  have h4: "clock_now sample_env < expires_at (otp_rows sample_db ! 0)" by code_simp
  have h5: "used_at (otp_rows sample_db ! 0) = None" by code_simp
  have h6: "py_strip ''000000'' \<noteq> code (otp_rows sample_db ! 0)" by code_simp
  have h7: "otp_max_attempts ?cfg < otp_attempts (account sample_db) + 1" by code_simp
  from lockout_on_exceeding [OF h0, where cfg = ?cfg and ev = sample_env and raw = "''000000''"
      and i = 0, THEN conjunct2, rule_format, OF h1 h2 h3 h4 h5 h6 h7]
  have a: "\<exists>s' out. on_email_or_code ?cfg sample_env ''000000'' sample_db = Inr (s', out) \<and>
         locked_out ?cfg type_otp sample_db s' \<and>
         otp_attempts (account s') = otp_attempts (account sample_db) + 1 \<and>
         last out = ToUser CodeBlocked" .
  have b: "case on_email_or_code ?cfg sample_env ''000000'' sample_db of
        Inl e \<Rightarrow> False
      | Inr (s', out) \<Rightarrow>
          admin_logs s' = [block_request 1 too_many_otp_codes type_otp [''000000'']]"
    by code_simp
  from h0 h7 a b show ?thesis by blast
qed




section \<open>Registration: single use of a code\<close>

lemma send_or_resend_keeps_used:
  assumes r: "send_or_resend_otp cfg ev u rows = Inr (rows', w, m)"
    and i: "i < length rows" and used: "used_at (rows ! i) \<noteq> None"
  shows "i < length rows' \<and> rows' ! i = rows ! i"
proof (cases "newest rows (unused_rows (user_id u) rows)")
  case None
  with r i show ?thesis
    by (auto simp: send_or_resend_otp_def mint_otp_def Let_def nth_append split: if_splits)
next
  case (Some j)
  then have "j \<in> set (unused_rows (user_id u) rows)" by (rule newest_mem)
  then have "used_at (rows ! j) = None" by (simp add: unused_rows_mem)
  with used have "j \<noteq> i" by auto
  with Some r i show ?thesis
    by (auto simp: send_or_resend_otp_def mint_otp_def Let_def nth_append split: if_splits)
qed

lemma send_or_resend_mails:
  "send_or_resend_otp cfg ev u rows = Inr (rows', w, m) \<Longrightarrow> ToUser r \<notin> set m"
  by (auto simp: send_or_resend_otp_def mint_otp_def Let_def split: option.splits if_splits)

lemma email_step_no_success:
  "email_step cfg ev text u s = Inr (s', out) \<Longrightarrow> stage u \<noteq> authorized \<Longrightarrow>
   ToUser AuthSuccess \<notin> set out \<and> stage (account s') \<noteq> authorized"
proof -
  assume a: "email_step cfg ev text u s = Inr (s', out)" and na: "stage u \<noteq> authorized"
  show ?thesis
  proof (cases "validate_email text (email_regex cfg) (allowed_domains cfg)")
    case (Some err)
    with a na show ?thesis
      by (auto simp: email_step_def Let_def notify_admin_on_block_eq split: if_splits)
  next
    case None
    show ?thesis
    proof (cases "send_or_resend_otp cfg ev
        (u\<lparr>email := Some text, email_attempts := 0, stage := verifying_code\<rparr>) (otp_rows s)")
      case (Inl e)
      with a na None show ?thesis
        by (auto simp: email_step_def Let_def split: if_splits)
    next
      case (Inr t)
      obtain rows w m where t: "t = (rows, w, m)" by (cases t) auto
      from Inr t have "ToUser AuthSuccess \<notin> set m" using send_or_resend_mails by blast
      with a na None Inr t show ?thesis
        by (auto simp: email_step_def Let_def split: if_splits prod.splits)
    qed
  qed
qed

lemma email_step_keeps_used:
  assumes a: "email_step cfg ev text u s = Inr (s', out)"
    and i: "i < length (otp_rows s)" and used: "used_at (otp_rows s ! i) \<noteq> None"
  shows "i < length (otp_rows s') \<and> otp_rows s' ! i = otp_rows s ! i"
proof (cases "validate_email text (email_regex cfg) (allowed_domains cfg)")
  case (Some err)
  with a i show ?thesis
    by (auto simp: email_step_def Let_def notify_admin_on_block_eq split: if_splits)
next
  case None
  show ?thesis
  proof (cases "send_or_resend_otp cfg ev
      (u\<lparr>email := Some text, email_attempts := 0, stage := verifying_code\<rparr>) (otp_rows s)")
    case (Inl e)
    with a None i show ?thesis
      by (auto simp: email_step_def Let_def split: if_splits)
  next
    case (Inr t)
    obtain rows w m where t: "t = (rows, w, m)" by (cases t) auto
    from send_or_resend_keeps_used [OF Inr [unfolded t] i used]
    have "i < length rows \<and> rows ! i = otp_rows s ! i" .
    with a None Inr t i show ?thesis
      by (auto simp: email_step_def Let_def split: if_splits prod.splits)
  qed
qed

lemma otp_step_success:
  "otp_step cfg ev text u s = Inr (s', out) \<Longrightarrow> ToUser AuthSuccess \<in> set out \<Longrightarrow>
   \<exists>i. newest (otp_rows s) (user_rows (user_id u) (otp_rows s)) = Some i \<and>
       used_at (otp_rows s ! i) = None \<and>
       otp_rows s' = (otp_rows s)[i := (otp_rows s ! i)\<lparr>used_at := Some (clock_now ev)\<rparr>] \<and>
       stage (account s') = authorized"
  by (auto simp: otp_step_def Let_def notify_admin_on_block_eq split: if_splits option.splits)

lemma otp_step_no_success:
  "otp_step cfg ev text u s = Inr (s', out) \<Longrightarrow> ToUser AuthSuccess \<notin> set out \<Longrightarrow>
   otp_rows s' = otp_rows s \<and> stage (account s') \<in> {stage u, verifying_code, verifying_code_error}"
  by (auto simp: otp_step_def Let_def notify_admin_on_block_eq split: if_splits option.splits)

lemma on_email_or_code_cases:
  assumes "on_email_or_code cfg ev raw s = Inr (s', out)"
  obtains
    (blocked) "stage (account s) \<in> {stage_new, verifying_email, verifying_email_error,
                                     verifying_code, verifying_code_error}"
      "s' = s\<lparr>account := (account s)\<lparr>last_activity := clock_activity ev\<rparr>\<rparr>"
      "out = [ToUser BlockedNotice]"
  | (email) "stage (account s) \<in> {stage_new, verifying_email, verifying_email_error}"
      "email_step cfg ev (py_strip raw) ((account s)\<lparr>last_activity := clock_activity ev\<rparr>) s
               = Inr (s', out)"
  | (code) "stage (account s) \<in> {verifying_code, verifying_code_error}"
      "otp_step cfg ev (py_strip raw) ((account s)\<lparr>last_activity := clock_activity ev\<rparr>) s
               = Inr (s', out)"
  using assms by (auto simp: on_email_or_code_def Let_def split: if_splits)

lemma used_code_rejected:
  assumes look: "newest (otp_rows s) (user_rows (user_id (account s)) (otp_rows s)) = Some i"
    and used: "used_at (otp_rows s ! i) \<noteq> None"
    and r: "on_email_or_code cfg ev raw s = Inr (s', out)"
  shows "ToUser AuthSuccess \<notin> set out \<and> stage (account s') \<noteq> authorized \<and>
         otp_rows s' ! i = otp_rows s ! i"
proof -
  from look have "i \<in> set (user_rows (user_id (account s)) (otp_rows s))" by (rule newest_mem)
  then have i: "i < length (otp_rows s)" by (simp add: user_rows_mem)
  from r show ?thesis
  proof (cases rule: on_email_or_code_cases)
    case blocked
    then show ?thesis by auto
  next
    case email
    from email(1) have "stage ((account s)\<lparr>last_activity := clock_activity ev\<rparr>) \<noteq> authorized"
      by auto
    from email_step_no_success [OF email(2) this] email_step_keeps_used [OF email(2) i used]
    show ?thesis by simp
  next
    case code
    let ?u = "(account s)\<lparr>last_activity := clock_activity ev\<rparr>"
    have no: "ToUser AuthSuccess \<notin> set out"
    proof
      assume "ToUser AuthSuccess \<in> set out"
      from otp_step_success [OF code(2) this] look used show False by auto
    qed
    from otp_step_no_success [OF code(2) no] code(1) no show ?thesis by auto
  qed
qed

lemma verified_facts:
  assumes "verified cfg ev raw s i s'"
  shows "i < length (otp_rows s) \<and> used_at (otp_rows s ! i) = None \<and>
         otp_rows s' = (otp_rows s)[i := (otp_rows s ! i)\<lparr>used_at := Some (clock_now ev)\<rparr>] \<and>
         stage (account s') = authorized"
proof -
  from assms obtain out where
    look: "newest (otp_rows s) (user_rows (user_id (account s)) (otp_rows s)) = Some i"
    and r: "on_email_or_code cfg ev raw s = Inr (s', out)"
    and ok: "ToUser AuthSuccess \<in> set out"
    by (auto simp: verified_def)
  from look have "i \<in> set (user_rows (user_id (account s)) (otp_rows s))" by (rule newest_mem)
  then have i: "i < length (otp_rows s)" by (simp add: user_rows_mem)
  from r show ?thesis
  proof (cases rule: on_email_or_code_cases)
    case blocked
    with ok show ?thesis by simp
  next
    case email
    from email(1) have "stage ((account s)\<lparr>last_activity := clock_activity ev\<rparr>) \<noteq> authorized"
      by auto
    from email_step_no_success [OF email(2) this] ok show ?thesis by simp
  next
    case code
    from otp_step_success [OF code(2) ok] look i show ?thesis by auto
  qed
qed

lemma on_profile_text_otp_rows:
  "on_profile_text cfg ev raw s = Inr (s', out) \<Longrightarrow> otp_rows s' = otp_rows s"
  by (auto simp: on_profile_text_def Let_def split: if_splits option.splits sum.splits)

lemma on_email_or_code_keeps_used:
  assumes r: "on_email_or_code cfg ev raw s = Inr (s', out)"
    and i: "i < length (otp_rows s)" and used: "used_at (otp_rows s ! i) \<noteq> None"
  shows "i < length (otp_rows s') \<and> otp_rows s' ! i = otp_rows s ! i"
  using r
proof (cases rule: on_email_or_code_cases)
  case blocked
  with i show ?thesis by simp
next
  case email
  from email_step_keeps_used [OF email(2) i used] show ?thesis .
next
  case code
  show ?thesis
  proof (cases "ToUser AuthSuccess \<in> set out")
    case True
    from otp_step_success [OF code(2) True] obtain j where
      j: "used_at (otp_rows s ! j) = None"
         "otp_rows s' = (otp_rows s)[j := (otp_rows s ! j)\<lparr>used_at := Some (clock_now ev)\<rparr>]"
      by auto
    with used have "j \<noteq> i" by auto
    with j(2) i show ?thesis by simp
  next
    case False
    from otp_step_no_success [OF code(2) False] i show ?thesis by simp
  qed
qed

lemma dispatch_text_keeps_used:
  assumes r: "dispatch_text cfg ev raw s = Inr (s', out)"
    and i: "i < length (otp_rows s)" and used: "used_at (otp_rows s ! i) \<noteq> None"
  shows "i < length (otp_rows s') \<and> otp_rows s' ! i = otp_rows s ! i"
proof (cases "on_profile_text cfg ev raw s")
  case (Inr t)
  with r have "on_profile_text cfg ev raw s = Inr (s', out)" by (simp add: dispatch_text_def)
  from on_profile_text_otp_rows [OF this] i show ?thesis by simp
next
  case (Inl e)
  show ?thesis
  proof (cases "e = SkipHandler")
    case False
    with Inl r show ?thesis by (cases e) (auto simp: dispatch_text_def)
  next
    case True
    show ?thesis
    proof (cases "on_email_or_code cfg ev raw s")
      case (Inr t)
      with Inl True r have "on_email_or_code cfg ev raw s = Inr (s', out)"
        by (simp add: dispatch_text_def)
      from on_email_or_code_keeps_used [OF this i used] show ?thesis .
    next
      case (Inl e')
      with \<open>on_profile_text cfg ev raw s = Inl e\<close> True r i show ?thesis
        by (cases e') (auto simp: dispatch_text_def)
    qed
  qed
qed

lemma cb_otp_resend_keeps_used:
  assumes r: "cb_otp_resend cfg ev s = Inr (s', out)"
    and i: "i < length (otp_rows s)" and used: "used_at (otp_rows s ! i) \<noteq> None"
  shows "i < length (otp_rows s') \<and> otp_rows s' ! i = otp_rows s ! i"
proof (cases "send_or_resend_otp cfg ev ((account s)\<lparr>last_activity := clock_activity ev\<rparr>) (otp_rows s)")
  case (Inl e)
  with r i show ?thesis by (auto simp: cb_otp_resend_def Let_def split: if_splits)
next
  case (Inr t)
  obtain rows w m where t: "t = (rows, w, m)" by (cases t) auto
  from send_or_resend_keeps_used [OF Inr [unfolded t] i used]
  have "i < length rows \<and> rows ! i = otp_rows s ! i" .
  with r Inr t i show ?thesis
    by (auto simp: cb_otp_resend_def Let_def split: if_splits prod.splits)
qed

lemma cmd_start_otp_rows: "cmd_start uname ev s = Inr (s', out) \<Longrightarrow> otp_rows s' = otp_rows s"
  by (auto simp: cmd_start_def Let_def split: if_splits)

lemma cb_change_email_otp_rows: "cb_change_email ev s = Inr (s', out) \<Longrightarrow> otp_rows s' = otp_rows s"
  by (auto simp: cb_change_email_def Let_def split: if_splits)

lemma cb_photo_skip_otp_rows: "cb_photo_skip ev s = Inr (s', out) \<Longrightarrow> otp_rows s' = otp_rows s"
  by (auto simp: cb_photo_skip_def Let_def split: if_splits)

lemma cb_prof_edit_field_otp_rows:
  "cb_prof_edit_field field s = Inr (s', out) \<Longrightarrow> otp_rows s' = otp_rows s"
  by (auto simp: cb_prof_edit_field_def Let_def split: if_splits)

lemma cb_prof_start_otp_rows:
  "cb_prof_start cfg ev s = Inr (s', out) \<Longrightarrow> otp_rows s' = otp_rows s"
  by (auto simp: cb_prof_start_def Let_def split: if_splits option.splits)

lemma cb_prefilled_keep_otp_rows:
  "cb_prefilled_keep s = Inr (s', out) \<Longrightarrow> otp_rows s' = otp_rows s"
  by (auto simp: cb_prefilled_keep_def Let_def split: if_splits option.splits)

lemma cb_prefilled_new_otp_rows:
  "cb_prefilled_new s = Inr (s', out) \<Longrightarrow> otp_rows s' = otp_rows s"
  by (auto simp: cb_prefilled_new_def)

lemma cb_prof_save_otp_rows: "cb_prof_save s = Inr (s', out) \<Longrightarrow> otp_rows s' = otp_rows s"
  by (auto simp: cb_prof_save_def)

lemma cb_prof_edit_review_otp_rows:
  "cb_prof_edit_review s = Inr (s', out) \<Longrightarrow> otp_rows s' = otp_rows s"
  by (auto simp: cb_prof_edit_review_def)

lemma cb_prof_join_otp_rows: "cb_prof_join s = Inr (s', out) \<Longrightarrow> otp_rows s' = otp_rows s"
  by (auto simp: cb_prof_join_def)

lemma handle_event_cases:
  assumes h: "handle_event cfg ev e s = (s', out)"
  shows "otp_rows s' = otp_rows s
    \<or> (\<exists>raw. e = TextMessage raw \<and> dispatch_text cfg ev raw s = Inr (s', out))
    \<or> (e = ResendCode \<and> cb_otp_resend cfg ev s = Inr (s', out))"
proof (cases e)
  case (TextMessage raw)
  with h show ?thesis by (auto simp: handle_event_def split: sum.splits if_splits)
next
  case (StartCommand uname)
  with h have "s' = s \<or> cmd_start uname ev s = Inr (s', out)"
    by (auto simp: handle_event_def split: sum.splits)
  with cmd_start_otp_rows show ?thesis by blast
next
  case ResendCode
  with h show ?thesis by (auto simp: handle_event_def split: sum.splits)
next
  case ChangeEmail
  with h have "s' = s \<or> cb_change_email ev s = Inr (s', out)"
    by (auto simp: handle_event_def split: sum.splits)
  with cb_change_email_otp_rows show ?thesis by blast
next
  case StartProfile
  with h have "s' = s \<or> cb_prof_start cfg ev s = Inr (s', out)"
    by (auto simp: handle_event_def split: sum.splits)
  with cb_prof_start_otp_rows show ?thesis by blast
next
  case KeepPrefilled
  with h have "s' = s \<or> cb_prefilled_keep s = Inr (s', out)"
    by (auto simp: handle_event_def split: sum.splits)
  with cb_prefilled_keep_otp_rows show ?thesis by blast
next
  case NewPrefilled
  with h have "s' = s \<or> cb_prefilled_new s = Inr (s', out)"
    by (auto simp: handle_event_def split: sum.splits)
  with cb_prefilled_new_otp_rows show ?thesis by blast
next
  case SkipPhoto
  with h have "s' = s \<or> cb_photo_skip ev s = Inr (s', out)"
    by (auto simp: handle_event_def split: sum.splits)
  with cb_photo_skip_otp_rows show ?thesis by blast
next
  case SaveProfile
  with h have "s' = s \<or> cb_prof_save s = Inr (s', out)"
    by (auto simp: handle_event_def split: sum.splits)
  with cb_prof_save_otp_rows show ?thesis by blast
next
  case (EditField field)
  with h have "s' = s \<or> cb_prof_edit_review s = Inr (s', out)
      \<or> cb_prof_edit_field field s = Inr (s', out)"
    by (auto simp: handle_event_def split: sum.splits if_splits)
  with cb_prof_edit_review_otp_rows cb_prof_edit_field_otp_rows show ?thesis by blast
next
  case JoinMatching
  with h have "s' = s \<or> cb_prof_join s = Inr (s', out)"
    by (auto simp: handle_event_def split: sum.splits)
  with cb_prof_join_otp_rows show ?thesis by blast
qed

lemma handle_event_keeps_used:
  assumes i: "i < length (otp_rows s)" and used: "used_at (otp_rows s ! i) \<noteq> None"
  shows "i < length (otp_rows (fst (handle_event cfg ev e s))) \<and>
         otp_rows (fst (handle_event cfg ev e s)) ! i = otp_rows s ! i"
proof -
  obtain s' out where h: "handle_event cfg ev e s = (s', out)"
    by (cases "handle_event cfg ev e s") auto
  from handle_event_cases [OF h]
  have "i < length (otp_rows s') \<and> otp_rows s' ! i = otp_rows s ! i"
  proof (elim disjE exE conjE)
    assume "otp_rows s' = otp_rows s"
    with i show ?thesis by simp
  next
    fix raw assume "dispatch_text cfg ev raw s = Inr (s', out)"
    from dispatch_text_keeps_used [OF this i used] show ?thesis .
  next
    assume "cb_otp_resend cfg ev s = Inr (s', out)"
    from cb_otp_resend_keeps_used [OF this i used] show ?thesis .
  qed
  with h show ?thesis by simp
qed

lemma run_keeps_used:
  "i < length (otp_rows s) \<Longrightarrow> used_at (otp_rows s ! i) \<noteq> None \<Longrightarrow>
   i < length (otp_rows (run cfg tr s)) \<and> otp_rows (run cfg tr s) ! i = otp_rows s ! i"
proof (induction tr arbitrary: s)
  case Nil
  then show ?case by simp
next
  case (Cons p tr)
  obtain ev e where p: "p = (ev, e)" by (cases p) auto
  from handle_event_keeps_used [OF Cons.prems, of cfg ev e]
  have h: "i < length (otp_rows (fst (handle_event cfg ev e s)))"
    "otp_rows (fst (handle_event cfg ev e s)) ! i = otp_rows s ! i" by auto
  with Cons.prems(2) have "used_at (otp_rows (fst (handle_event cfg ev e s)) ! i) \<noteq> None" by simp
  from Cons.IH [OF h(1) this] h(2) p show ?case by simp
qed

lemma used_not_verified:
  "used_at (otp_rows s ! i) \<noteq> None \<Longrightarrow> \<not> verified cfg ev raw s i s'"
  using verified_facts [of cfg ev raw s i s'] by auto

text \<open>
  C1. A code whose \<open>used_at\<close> is set validates no submitted value: when it is the row the
  handler looks up, no answer of the handler is the success message, the account does not
  become authorized and the row stays as it is. A successful verification finds the row
  unused and sets its \<open>used_at\<close> to the time of the check; after it, whatever events
  follow, no verification against that row succeeds again.
\<close>

theorem code_is_single_use:
  "(used_at (otp_rows s ! i) \<noteq> None \<longrightarrow> \<not> verified cfg ev raw s i s')
   \<and> (newest (otp_rows s) (user_rows (user_id (account s)) (otp_rows s)) = Some i \<longrightarrow>
       used_at (otp_rows s ! i) \<noteq> None \<longrightarrow>
       on_email_or_code cfg ev raw s = Inr (s', out) \<longrightarrow>
       ToUser AuthSuccess \<notin> set out \<and> stage (account s') \<noteq> authorized \<and>
       otp_rows s' ! i = otp_rows s ! i)
   \<and> (verified cfg ev raw s i s' \<longrightarrow>
       used_at (otp_rows s ! i) = None \<and>
       used_at (otp_rows s' ! i) = Some (clock_now ev) \<and>
       stage (account s') = authorized)
   \<and> (verified cfg ev raw s i s' \<longrightarrow>
       \<not> verified cfg2 ev2 raw2 (run cfg2 tr s') i s2)"
proof (intro conjI impI)
  assume "used_at (otp_rows s ! i) \<noteq> None"
  then show "\<not> verified cfg ev raw s i s'" by (rule used_not_verified)
next
  assume a: "newest (otp_rows s) (user_rows (user_id (account s)) (otp_rows s)) = Some i"
    "used_at (otp_rows s ! i) \<noteq> None" "on_email_or_code cfg ev raw s = Inr (s', out)"
  from used_code_rejected [OF a]
  show "ToUser AuthSuccess \<notin> set out" "stage (account s') \<noteq> authorized"
    "otp_rows s' ! i = otp_rows s ! i" by auto
next
  assume v: "verified cfg ev raw s i s'"
  from verified_facts [OF v]
  show "used_at (otp_rows s ! i) = None"
    "used_at (otp_rows s' ! i) = Some (clock_now ev)" "stage (account s') = authorized"
    by auto
next
  assume v: "verified cfg ev raw s i s'"
  from verified_facts [OF v]
  have i: "i < length (otp_rows s')" and u: "used_at (otp_rows s' ! i) \<noteq> None" by auto
  from run_keeps_used [OF i u, of cfg2 tr] u
  have "used_at (otp_rows (run cfg2 tr s') ! i) \<noteq> None" by simp
  then show "\<not> verified cfg2 ev2 raw2 (run cfg2 tr s') i s2" by (rule used_not_verified)
qed

theorem code_is_single_use_witness:
  "verified sample_settings sample_env ''123456'' sample_db 0
     (fst (projr (on_email_or_code sample_settings sample_env ''123456'' sample_db)))
   \<and> used_at (otp_rows (fst (projr (on_email_or_code sample_settings sample_env ''123456''
                                     sample_db))) ! 0) = Some 50000001
   \<and> \<not> verified sample_settings sample_env ''123456''
         (run sample_settings
            [(sample_env, ChangeEmail), (sample_env, TextMessage ''a@corp.com'')]
            (fst (projr (on_email_or_code sample_settings sample_env ''123456'' sample_db))))
         0 sample_db"
proof -
  let ?r = "on_email_or_code sample_settings sample_env ''123456'' sample_db"
  have look: "newest (otp_rows sample_db) (user_rows (user_id (account sample_db)) (otp_rows sample_db))
            = Some 0" by code_simp
  have "\<not> isl ?r" by code_simp
  then have r: "?r = Inr (fst (projr ?r), snd (projr ?r))" by simp
  have ok: "ToUser AuthSuccess \<in> set (snd (projr ?r))" by code_simp
  have v: "verified sample_settings sample_env ''123456'' sample_db 0 (fst (projr ?r))"
    unfolding verified_def using look r ok by blast
  have now: "clock_now sample_env = 50000001" by code_simp
  note t = code_is_single_use [where cfg = sample_settings and ev = sample_env
      and raw = "''123456''" and s = sample_db and i = 0 and s' = "fst (projr ?r)"
      and ?cfg2.0 = sample_settings and ?ev2.0 = sample_env and ?raw2.0 = "''123456''"
      and tr = "[(sample_env, ChangeEmail), (sample_env, TextMessage ''a@corp.com'')]"
      and ?s2.0 = sample_db]
  from t v have a: "used_at (otp_rows (fst (projr ?r)) ! 0) = Some (clock_now sample_env)"
    by blast
  from t v have b: "\<not> verified sample_settings sample_env ''123456''
         (run sample_settings
            [(sample_env, ChangeEmail), (sample_env, TextMessage ''a@corp.com'')]
            (fst (projr ?r))) 0 sample_db"
    by blast
  from v a b now show ?thesis by simp
qed

section \<open>Blocked accounts\<close>

lemma on_email_or_code_blocked:
  "status (account s) = status_blocked \<Longrightarrow>
   stage (account s) \<in> {stage_new, verifying_email, verifying_email_error,
                          verifying_code, verifying_code_error} \<Longrightarrow>
   on_email_or_code cfg ev raw s =
     Inr (s\<lparr>account := (account s)\<lparr>last_activity := clock_activity ev\<rparr>\<rparr>, [ToUser BlockedNotice])"
  by (auto simp: on_email_or_code_def Let_def)

lemma on_profile_text_blocked:
  "status (account s) = status_blocked \<Longrightarrow>
   stage (account s) \<in> {profile_name, profile_bio, profile_age, profile_interests} \<Longrightarrow>
   on_profile_text cfg ev raw s =
     Inr (s\<lparr>account := (account s)\<lparr>last_activity := clock_activity ev\<rparr>\<rparr>, [ToUser BlockedNotice])"
  by (auto simp: on_profile_text_def Let_def)

lemma on_profile_text_skips:
  "stage (account s) \<notin> {profile_name, profile_bio, profile_age, profile_interests} \<Longrightarrow>
   on_profile_text cfg ev raw s = Inl SkipHandler"
  by (simp add: on_profile_text_def)

lemma cmd_start_blocked:
  "status (account s) = status_blocked \<Longrightarrow>
   cmd_start uname ev s =
     Inr (s\<lparr>account := (account s)
                \<lparr>username := (if uname \<noteq> None \<and> uname \<noteq> Some [] then uname
                                else username (account s)),
                  last_activity := clock_activity ev\<rparr>\<rparr>,
          [ToUser BlockedNotice])"
proof -
  assume b: "status (account s) = status_blocked"
  show ?thesis
  proof (cases "uname \<noteq> None \<and> uname \<noteq> Some [] \<and> username (account s) \<noteq> uname")
    case True
    with b show ?thesis by (simp add: cmd_start_def Let_def)
  next
    case False
    then have e: "(if uname \<noteq> None \<and> uname \<noteq> Some [] then uname
                   else username (account s)) = username (account s)"
      by auto
    from False have "cmd_start uname ev s =
        Inr (s\<lparr>account := (account s)\<lparr>last_activity := clock_activity ev\<rparr>\<rparr>,
             [ToUser BlockedNotice])"
      using b by (auto simp: cmd_start_def Let_def)
    then show ?thesis unfolding e by simp
  qed
qed

text \<open>
  C3, amended. For a blocked account, a text message that is not a command, received at
  a registration stage or at a profile stage that collects text, and the /start command at
  any stage, are answered with the one notice that the account is blocked; of the store
  only the account's \<open>last_activity\<close> changes and, on /start, the handle is refreshed.
\<close>

theorem blocked_account_frame:
  assumes "status (account s) = status_blocked"
  shows "(stage (account s) \<in> {stage_new, verifying_email, verifying_email_error,
                                 verifying_code, verifying_code_error,
                                 profile_name, profile_bio, profile_age, profile_interests} \<longrightarrow>
          dispatch_text cfg ev raw s =
            Inr (s\<lparr>account := (account s)\<lparr>last_activity := clock_activity ev\<rparr>\<rparr>,
                 [ToUser BlockedNotice]))
       \<and> cmd_start uname ev s =
            Inr (s\<lparr>account := (account s)
                       \<lparr>username := (if uname \<noteq> None \<and> uname \<noteq> Some [] then uname
                                       else username (account s)),
                         last_activity := clock_activity ev\<rparr>\<rparr>,
                 [ToUser BlockedNotice])"
proof (intro conjI impI)
  assume st: "stage (account s) \<in> {stage_new, verifying_email, verifying_email_error,
                                 verifying_code, verifying_code_error,
                                 profile_name, profile_bio, profile_age, profile_interests}"
  show "dispatch_text cfg ev raw s =
            Inr (s\<lparr>account := (account s)\<lparr>last_activity := clock_activity ev\<rparr>\<rparr>,
                 [ToUser BlockedNotice])"
  proof (cases "stage (account s) \<in> {profile_name, profile_bio, profile_age, profile_interests}")
    case True
    from on_profile_text_blocked [OF assms True] show ?thesis by (simp add: dispatch_text_def)
  next
    case False
    with st have reg: "stage (account s) \<in> {stage_new, verifying_email, verifying_email_error,
                          verifying_code, verifying_code_error}" by auto
    from on_profile_text_skips [OF False] on_email_or_code_blocked [OF assms reg]
    show ?thesis by (simp add: dispatch_text_def)
  qed
next
  show "cmd_start uname ev s =
            Inr (s\<lparr>account := (account s)
                       \<lparr>username := (if uname \<noteq> None \<and> uname \<noteq> Some [] then uname
                                       else username (account s)),
                         last_activity := clock_activity ev\<rparr>\<rparr>,
                 [ToUser BlockedNotice])"
    using assms by (rule cmd_start_blocked)
qed

theorem blocked_account_counterexample:
  "status (account (sample_db\<lparr>account := sample_account\<lparr>status := status_blocked,
                                                        stage := verifying_code_error\<rparr>\<rparr>))
     = status_blocked
   \<and> (case dispatch_text sample_settings sample_env ''hello''
             (sample_db\<lparr>account := sample_account\<lparr>status := status_blocked,
                                                    stage := verifying_code_error\<rparr>\<rparr>) of
        Inl e \<Rightarrow> False
      | Inr (s', out) \<Rightarrow>
          out = [ToUser BlockedNotice] \<and> last_activity sample_account = 0 \<and>
          last_activity (account s') = 50000000)
   \<and> dispatch_text sample_settings sample_env ''hello''
        (sample_db\<lparr>account := sample_account\<lparr>status := status_blocked, stage := authorized\<rparr>\<rparr>)
      = Inr (sample_db\<lparr>account := sample_account\<lparr>status := status_blocked, stage := authorized\<rparr>\<rparr>,
             [])"
  by code_simp

theorem blocked_account_frame_witness:
  "status (account (sample_db\<lparr>account := sample_account\<lparr>status := status_blocked,
                                                        stage := verifying_code_error\<rparr>\<rparr>))
     = status_blocked
   \<and> dispatch_text sample_settings sample_env ''123456''
        (sample_db\<lparr>account := sample_account\<lparr>status := status_blocked,
                                               stage := verifying_code_error\<rparr>\<rparr>)
      = Inr (sample_db\<lparr>account := sample_account\<lparr>status := status_blocked,
                                                   stage := verifying_code_error,
                                                   last_activity := 50000000\<rparr>\<rparr>,
             [ToUser BlockedNotice])"
proof -
  let ?s = "sample_db\<lparr>account := sample_account\<lparr>status := status_blocked,
                                                 stage := verifying_code_error\<rparr>\<rparr>"
  have h: "status (account ?s) = status_blocked" by simp
  have st: "stage (account ?s) \<in> {stage_new, verifying_email, verifying_email_error,
                                 verifying_code, verifying_code_error,
                                 profile_name, profile_bio, profile_age, profile_interests}"
    by simp
  from blocked_account_frame [OF h, where cfg = sample_settings and ev = sample_env
      and raw = "''123456''", THEN conjunct1, rule_format, OF st]
  have "dispatch_text sample_settings sample_env ''123456'' ?s =
        Inr (?s\<lparr>account := (account ?s)\<lparr>last_activity := clock_activity sample_env\<rparr>\<rparr>,
             [ToUser BlockedNotice])" .
  then have "dispatch_text sample_settings sample_env ''123456'' ?s
      = Inr (sample_db\<lparr>account := sample_account\<lparr>status := status_blocked,
                                                   stage := verifying_code_error,
                                                   last_activity := 50000000\<rparr>\<rparr>,
             [ToUser BlockedNotice])"
    by (simp add: sample_env_def)
  with h show ?thesis by blast
qed

section \<open>Editing a field from the review screen\<close>

lemma cb_prof_edit_field_stage:
  "field_stage field = Some st \<Longrightarrow>
   \<exists>out. cb_prof_edit_field field s = Inr (s\<lparr>account := (account s)\<lparr>stage := st\<rparr>\<rparr>, out)"
  by (auto simp: field_stage_def cb_prof_edit_field_def Let_def split: if_splits)

lemma on_profile_text_name:
  "status (account s) \<noteq> status_blocked \<Longrightarrow> stage (account s) = profile_name \<Longrightarrow>
   2 \<le> length (py_strip raw) \<and> length (py_strip raw) \<le> 100 \<Longrightarrow>
   contains_banned_words (py_strip raw) (banned_words cfg) = None \<Longrightarrow>
   on_profile_text cfg ev raw s =
     Inr (s\<lparr>account := (account s)\<lparr>last_activity := clock_activity ev,
                                    name := Some (py_strip raw), stage := profile_photo\<rparr>\<rparr>,
          [ToUser AskPhoto])"
  by (simp add: on_profile_text_def Let_def)

lemma on_profile_text_bio:
  "status (account s) \<noteq> status_blocked \<Longrightarrow> stage (account s) = profile_bio \<Longrightarrow>
   length (py_strip raw) \<le> 500 \<Longrightarrow>
   contains_banned_words (py_strip raw) (banned_words cfg) = None \<Longrightarrow>
   on_profile_text cfg ev raw s =
     Inr (s\<lparr>account := (account s)\<lparr>last_activity := clock_activity ev,
                                    bio := Some (py_strip raw), stage := profile_age\<rparr>\<rparr>,
          [ToUser AskAge])"
  by (simp add: on_profile_text_def Let_def)

lemma on_profile_text_age:
  "status (account s) \<noteq> status_blocked \<Longrightarrow> stage (account s) = profile_age \<Longrightarrow>
   py_isdigit (py_strip raw) \<Longrightarrow> py_int (py_strip raw) = Some a \<Longrightarrow> 18 \<le> a \<and> a \<le> 50 \<Longrightarrow>
   on_profile_text cfg ev raw s =
     Inr (s\<lparr>account := (account s)\<lparr>last_activity := clock_activity ev,
                                    age := Some a, stage := profile_interests\<rparr>\<rparr>,
          [ToUser AskInterests])"
  by (simp add: on_profile_text_def Let_def)

lemma on_profile_text_interests:
  "status (account s) \<noteq> status_blocked \<Longrightarrow> stage (account s) = profile_interests \<Longrightarrow>
   normalize_interests (py_strip raw) (banned_words cfg) = Inr xs \<Longrightarrow>
   on_profile_text cfg ev raw s =
     Inr (s\<lparr>account := (account s)\<lparr>last_activity := clock_activity ev,
                                    interests_json := Some xs, stage := profile_review\<rparr>\<rparr>,
          [ToUser ReviewPreview])"
  by (simp add: on_profile_text_def Let_def)

lemma cb_photo_skip_stage:
  "stage (account s) = profile_photo \<Longrightarrow>
   cb_photo_skip ev s =
     Inr (s\<lparr>account := (account s)\<lparr>last_activity := clock_activity ev, stage := profile_bio\<rparr>\<rparr>,
          [ToUser PhotoSkipped])"
  by (simp add: cb_photo_skip_def Let_def)

lemma on_profile_text_moves:
  "on_profile_text cfg ev raw s = Inr (s', out) \<Longrightarrow>
   stage (account s') = stage (account s) \<or>
   (stage (account s), stage (account s')) \<in>
     {(profile_name, profile_photo), (profile_bio, profile_age),
      (profile_age, profile_interests), (profile_interests, profile_review)}"
  by (auto simp: on_profile_text_def Let_def split: if_splits option.splits sum.splits)

text \<open>
  C4, amended. Choosing a field on the review screen sets the stage to the collection
  stage of that field. Completing the field then moves the stage to the next step of the
  sequence name, photo, bio, age, interests, review: an accepted name leads to the photo
  step, skipping the photo to bio, an accepted bio to age, an accepted age to interests,
  and only an accepted list of interests leads to review. The text handler makes no other
  change of stage.
\<close>

theorem edit_field_then_next_step:
  "(field_stage field = Some st \<longrightarrow>
      (\<exists>out. cb_prof_edit_field field s = Inr (s\<lparr>account := (account s)\<lparr>stage := st\<rparr>\<rparr>, out)))
   \<and> (status (account s) \<noteq> status_blocked \<longrightarrow> stage (account s) = profile_name \<longrightarrow>
       2 \<le> length (py_strip raw) \<and> length (py_strip raw) \<le> 100 \<longrightarrow>
       contains_banned_words (py_strip raw) (banned_words cfg) = None \<longrightarrow>
       on_profile_text cfg ev raw s =
         Inr (s\<lparr>account := (account s)\<lparr>last_activity := clock_activity ev,
                                        name := Some (py_strip raw), stage := profile_photo\<rparr>\<rparr>,
              [ToUser AskPhoto]))
   \<and> (stage (account s) = profile_photo \<longrightarrow>
       cb_photo_skip ev s =
         Inr (s\<lparr>account := (account s)\<lparr>last_activity := clock_activity ev,
                                        stage := profile_bio\<rparr>\<rparr>,
              [ToUser PhotoSkipped]))
   \<and> (status (account s) \<noteq> status_blocked \<longrightarrow> stage (account s) = profile_bio \<longrightarrow>
       length (py_strip raw) \<le> 500 \<longrightarrow>
       contains_banned_words (py_strip raw) (banned_words cfg) = None \<longrightarrow>
       on_profile_text cfg ev raw s =
         Inr (s\<lparr>account := (account s)\<lparr>last_activity := clock_activity ev,
                                        bio := Some (py_strip raw), stage := profile_age\<rparr>\<rparr>,
              [ToUser AskAge]))
   \<and> (status (account s) \<noteq> status_blocked \<longrightarrow> stage (account s) = profile_age \<longrightarrow>
       py_isdigit (py_strip raw) \<longrightarrow> py_int (py_strip raw) = Some a \<longrightarrow> 18 \<le> a \<and> a \<le> 50 \<longrightarrow>
       on_profile_text cfg ev raw s =
         Inr (s\<lparr>account := (account s)\<lparr>last_activity := clock_activity ev,
                                        age := Some a, stage := profile_interests\<rparr>\<rparr>,
              [ToUser AskInterests]))
   \<and> (status (account s) \<noteq> status_blocked \<longrightarrow> stage (account s) = profile_interests \<longrightarrow>
       normalize_interests (py_strip raw) (banned_words cfg) = Inr xs \<longrightarrow>
       on_profile_text cfg ev raw s =
         Inr (s\<lparr>account := (account s)\<lparr>last_activity := clock_activity ev,
                                        interests_json := Some xs, stage := profile_review\<rparr>\<rparr>,
              [ToUser ReviewPreview]))
   \<and> (on_profile_text cfg ev raw s = Inr (s', out') \<longrightarrow>
       stage (account s') = stage (account s) \<or>
       (stage (account s), stage (account s')) \<in>
         {(profile_name, profile_photo), (profile_bio, profile_age),
          (profile_age, profile_interests), (profile_interests, profile_review)})"
proof (intro conjI impI)
  assume "field_stage field = Some st"
  then show "\<exists>out. cb_prof_edit_field field s = Inr (s\<lparr>account := (account s)\<lparr>stage := st\<rparr>\<rparr>, out)"
    by (rule cb_prof_edit_field_stage)
next
  assume "status (account s) \<noteq> status_blocked" "stage (account s) = profile_name"
    "2 \<le> length (py_strip raw) \<and> length (py_strip raw) \<le> 100"
    "contains_banned_words (py_strip raw) (banned_words cfg) = None"
  then show "on_profile_text cfg ev raw s =
         Inr (s\<lparr>account := (account s)\<lparr>last_activity := clock_activity ev,
                                        name := Some (py_strip raw), stage := profile_photo\<rparr>\<rparr>,
              [ToUser AskPhoto])"
    by (rule on_profile_text_name)
next
  assume "stage (account s) = profile_photo"
  then show "cb_photo_skip ev s =
         Inr (s\<lparr>account := (account s)\<lparr>last_activity := clock_activity ev,
                                        stage := profile_bio\<rparr>\<rparr>,
              [ToUser PhotoSkipped])"
    by (rule cb_photo_skip_stage)
next
  assume "status (account s) \<noteq> status_blocked" "stage (account s) = profile_bio"
    "length (py_strip raw) \<le> 500"
    "contains_banned_words (py_strip raw) (banned_words cfg) = None"
  then show "on_profile_text cfg ev raw s =
         Inr (s\<lparr>account := (account s)\<lparr>last_activity := clock_activity ev,
                                        bio := Some (py_strip raw), stage := profile_age\<rparr>\<rparr>,
              [ToUser AskAge])"
    by (rule on_profile_text_bio)
next
  assume "status (account s) \<noteq> status_blocked" "stage (account s) = profile_age"
    "py_isdigit (py_strip raw)" "py_int (py_strip raw) = Some a" "18 \<le> a \<and> a \<le> 50"
  then show "on_profile_text cfg ev raw s =
         Inr (s\<lparr>account := (account s)\<lparr>last_activity := clock_activity ev,
                                        age := Some a, stage := profile_interests\<rparr>\<rparr>,
              [ToUser AskInterests])"
    by (rule on_profile_text_age)
next
  assume "status (account s) \<noteq> status_blocked" "stage (account s) = profile_interests"
    "normalize_interests (py_strip raw) (banned_words cfg) = Inr xs"
  then show "on_profile_text cfg ev raw s =
         Inr (s\<lparr>account := (account s)\<lparr>last_activity := clock_activity ev,
                                        interests_json := Some xs, stage := profile_review\<rparr>\<rparr>,
              [ToUser ReviewPreview])"
    by (rule on_profile_text_interests)
next
  assume "on_profile_text cfg ev raw s = Inr (s', out')"
  then show "stage (account s') = stage (account s) \<or>
       (stage (account s), stage (account s')) \<in>
         {(profile_name, profile_photo), (profile_bio, profile_age),
          (profile_age, profile_interests), (profile_interests, profile_review)}"
    by (rule on_profile_text_moves)
qed

theorem edit_name_goes_to_photo_counterexample:
  "stage (account (sample_db\<lparr>account := sample_account\<lparr>status := status_active,
                                                      stage := profile_review\<rparr>\<rparr>))
     = profile_review
   \<and> stage (account (run sample_settings [(sample_env, EditField ''name'')]
        (sample_db\<lparr>account := sample_account\<lparr>status := status_active,
                                               stage := profile_review\<rparr>\<rparr>))) = profile_name
   \<and> stage (account (run sample_settings
                        [(sample_env, EditField ''name''), (sample_env, TextMessage ''Alice'')]
        (sample_db\<lparr>account := sample_account\<lparr>status := status_active,
                                               stage := profile_review\<rparr>\<rparr>))) = profile_photo
   \<and> name (account (run sample_settings
                        [(sample_env, EditField ''name''), (sample_env, TextMessage ''Alice'')]
        (sample_db\<lparr>account := sample_account\<lparr>status := status_active,
                                               stage := profile_review\<rparr>\<rparr>))) = Some ''Alice''"
  by code_simp

theorem edit_field_then_next_step_witness:
  "field_stage ''name'' = Some profile_name
   \<and> (\<exists>out. cb_prof_edit_field ''name''
               (sample_db\<lparr>account := sample_account\<lparr>status := status_active,
                                                      stage := profile_review\<rparr>\<rparr>) =
             Inr (sample_db\<lparr>account := sample_account\<lparr>status := status_active,
                                                         stage := profile_name\<rparr>\<rparr>, out))
   \<and> on_profile_text sample_settings sample_env ''Alice''
        (sample_db\<lparr>account := sample_account\<lparr>status := status_active, stage := profile_name\<rparr>\<rparr>) =
      Inr (sample_db\<lparr>account := sample_account\<lparr>status := status_active,
                                                   last_activity := 50000000,
                                                   name := Some ''Alice'',
                                                   stage := profile_photo\<rparr>\<rparr>,
           [ToUser AskPhoto])"
proof -
  let ?r = "sample_db\<lparr>account := sample_account\<lparr>status := status_active, stage := profile_review\<rparr>\<rparr>"
  let ?n = "sample_db\<lparr>account := sample_account\<lparr>status := status_active, stage := profile_name\<rparr>\<rparr>"
  have f: "field_stage ''name'' = Some profile_name" by (simp add: field_stage_def)
  from edit_field_then_next_step [where field = "''name''" and st = profile_name and s = ?r,
      THEN conjunct1, rule_format, OF f]
  have a: "\<exists>out. cb_prof_edit_field ''name'' ?r = Inr (?n, out)" by simp
  have h1: "status (account ?n) \<noteq> status_blocked" by simp
  have h2: "stage (account ?n) = profile_name" by simp
  have strip: "py_strip ''Alice'' = ''Alice''" by code_simp
  have h3: "2 \<le> length (py_strip ''Alice'') \<and> length (py_strip ''Alice'') \<le> 100"
    by (simp add: strip)
  have h4: "contains_banned_words (py_strip ''Alice'') (banned_words sample_settings) = None"
    by code_simp
  from edit_field_then_next_step [where s = ?n and raw = "''Alice''" and cfg = sample_settings
      and ev = sample_env, THEN conjunct2, THEN conjunct1, rule_format, OF h1 h2 h3 h4]
  have "on_profile_text sample_settings sample_env ''Alice'' ?n =
      Inr (?n\<lparr>account := (account ?n)\<lparr>last_activity := clock_activity sample_env,
                                        name := Some (py_strip ''Alice''),
                                        stage := profile_photo\<rparr>\<rparr>,
           [ToUser AskPhoto])" .
  then have b: "on_profile_text sample_settings sample_env ''Alice'' ?n =
      Inr (sample_db\<lparr>account := sample_account\<lparr>status := status_active,
                                                   last_activity := 50000000,
                                                   name := Some ''Alice'',
                                                   stage := profile_photo\<rparr>\<rparr>,
           [ToUser AskPhoto])"
    by (simp add: strip sample_env_def)
  from f a b show ?thesis by blast
qed

end
